theory Spec2Isabelle
  imports Complex_Main "HOL-Library.Word" "HOL-Library.Log_Nat"
begin

section \<open>IEEE-754 binary floating point, as far as \<open>main.cpp\<close> uses it\<close>

text \<open>
  \<open>Scene::angle\<close> is a C++ \<open>float\<close> (binary32); the time step, \<open>M_PI\<close> and every
  variable of \<open>GameLoop\<close> are \<open>double\<close> (binary64).  A floating-point value is modelled
  by the rational number it denotes, or one of the three special values.  Every
  arithmetic operation computes the exact rational result and rounds it to the
  format, to nearest with ties to even, as IEEE-754 prescribes for \<open>+\<close>, \<open>-\<close>, \<open>*\<close>, \<open>/\<close>
  and for conversions; \<open>double\<close> expressions are evaluated in binary64, with no wider
  intermediate format.  The sign of a zero is not modelled: zeros compare equal, and
  the only divisor in the program is converted from an unsigned integer, so it is
  never a negative zero.
\<close>

datatype fp = Finite rat | PInf | NInf | NaN

record fmt =
  prec :: nat
  emin :: int
  emax :: int

definition binary32 :: fmt where
  "binary32 = \<lparr>prec = 24, emin = - 126, emax = 127\<rparr>"

definition binary64 :: fmt where
  "binary64 = \<lparr>prec = 53, emin = - 1022, emax = 1023\<rparr>"

text \<open>Round a rational to the nearest integer, ties to the even one.\<close>

definition rne :: "rat \<Rightarrow> int" where
  "rne x = (let f = \<lfloor>x\<rfloor>; r = x - of_int f
            in if r < 1 / 2 then f
               else if 1 / 2 < r then f + 1
               else if even f then f else f + 1)"

definition pow2 :: "int \<Rightarrow> rat" where
  "pow2 e = (if 0 \<le> e then 2 ^ nat e else 1 / 2 ^ nat (- e))"

text \<open>The binary exponent of a positive rational: \<open>pow2 (ilog2 x) \<le> x < pow2 (ilog2 x + 1)\<close>.\<close>

definition ilog2 :: "rat \<Rightarrow> int" where
  "ilog2 x = (case quotient_of x of (a, b) \<Rightarrow>
     (let d = bitlen a - bitlen b in if pow2 d \<le> x then d else d - 1))"

text \<open>
  Rounding of a positive magnitude with unbounded exponent range above: the unit in
  the last place is \<open>pow2 (e - prec + 1)\<close>, where \<open>e\<close> is the exponent of \<open>x\<close>, or
  \<open>emin\<close> for a subnormal \<open>x\<close>.
\<close>

definition round_mag :: "fmt \<Rightarrow> rat \<Rightarrow> rat" where
  "round_mag f x = (let e = max (ilog2 x) (emin f); q = pow2 (e - int (prec f) + 1)
                    in of_int (rne (x / q)) * q)"

text \<open>
  Rounding of a rational to the format: the result overflows to an infinity when the
  exponent of the rounded magnitude is above \<open>emax\<close>.
\<close>

definition fp_of_rat :: "fmt \<Rightarrow> rat \<Rightarrow> fp" where
  "fp_of_rat f x =
     (if x = 0 then Finite 0
      else let m = round_mag f \<bar>x\<bar>
           in if 0 < m \<and> emax f < ilog2 m then (if x < 0 then NInf else PInf)
              else Finite (if x < 0 then - m else m))"

text \<open>Conversion of a floating-point value to another format.\<close>

fun fp_round :: "fmt \<Rightarrow> fp \<Rightarrow> fp" where
  "fp_round f (Finite x) = fp_of_rat f x"
| "fp_round f v = v"

fun fp_neg :: "fp \<Rightarrow> fp" where
  "fp_neg (Finite x) = Finite (- x)"
| "fp_neg PInf = NInf"
| "fp_neg NInf = PInf"
| "fp_neg NaN = NaN"

fun fp_add :: "fmt \<Rightarrow> fp \<Rightarrow> fp \<Rightarrow> fp" where
  "fp_add f (Finite x) (Finite y) = fp_of_rat f (x + y)"
| "fp_add f NaN b = NaN"
| "fp_add f a NaN = NaN"
| "fp_add f PInf NInf = NaN"
| "fp_add f NInf PInf = NaN"
| "fp_add f PInf b = PInf"
| "fp_add f a PInf = PInf"
| "fp_add f NInf b = NInf"
| "fp_add f a NInf = NInf"

definition fp_sub :: "fmt \<Rightarrow> fp \<Rightarrow> fp \<Rightarrow> fp" where
  "fp_sub f a b = fp_add f a (fp_neg b)"

fun fp_sgn :: "fp \<Rightarrow> int" where
  "fp_sgn (Finite x) = (if x = 0 then 0 else if 0 < x then 1 else - 1)"
| "fp_sgn PInf = 1"
| "fp_sgn NInf = - 1"
| "fp_sgn NaN = 0"

fun fp_mul :: "fmt \<Rightarrow> fp \<Rightarrow> fp \<Rightarrow> fp" where
  "fp_mul f (Finite x) (Finite y) = fp_of_rat f (x * y)"
| "fp_mul f NaN b = NaN"
| "fp_mul f a NaN = NaN"
| "fp_mul f a b =
     (let s = fp_sgn a * fp_sgn b
      in if s = 0 then NaN else if 0 < s then PInf else NInf)"

text \<open>Division; a zero divisor is the positive zero.\<close>

fun fp_div :: "fmt \<Rightarrow> fp \<Rightarrow> fp \<Rightarrow> fp" where
  "fp_div f (Finite x) (Finite y) =
     (if y = 0 then (if x = 0 then NaN else if 0 < x then PInf else NInf)
      else fp_of_rat f (x / y))"
| "fp_div f NaN b = NaN"
| "fp_div f a NaN = NaN"
| "fp_div f (Finite x) b = Finite 0"
| "fp_div f a (Finite y) = (if 0 \<le> y then a else fp_neg a)"
| "fp_div f a b = NaN"

text \<open>The comparison \<open>a > b\<close>; it is false whenever an operand is a NaN.\<close>

fun fp_gt :: "fp \<Rightarrow> fp \<Rightarrow> bool" where
  "fp_gt (Finite x) (Finite y) = (y < x)"
| "fp_gt NaN b = False"
| "fp_gt a NaN = False"
| "fp_gt PInf b = (b \<noteq> PInf)"
| "fp_gt a NInf = (a \<noteq> NInf)"
| "fp_gt a b = False"

text \<open>Conversion of a \<open>Uint64\<close> to \<open>double\<close>.\<close>

definition u64_to_double :: "64 word \<Rightarrow> fp" where
  "u64_to_double w = fp_of_rat binary64 (of_nat (unat w))"

text \<open>
  \<open>M_PI\<close> comes from \<open>math.h\<close>, which defines it as the decimal literal below; the
  compiler rounds the literal to a \<open>double\<close>.
\<close>

definition M_PI :: fp where
  "M_PI = fp_of_rat binary64 (314159265358979323846264338327950288 / 10 ^ 35)"

text \<open>The expression \<open>2 * M_PI\<close> of \<open>Update\<close>.\<close>

definition TWO_M_PI :: fp where
  "TWO_M_PI = fp_mul binary64 (Finite 2) M_PI"

section \<open>Platform events\<close>

text \<open>
  An \<open>SDL_Event\<close> is a union discriminated by its \<open>type\<close> field; \<open>Update\<close> reads the type
  and, for a keyboard event, \<open>key.keysym.sym\<close>.  The three constants are those of the
  SDL2 headers.
\<close>

record SDL_Event =
  ev_type :: "32 word"
  key_sym :: "32 word"

definition SDL_QUIT :: "32 word" where
  "SDL_QUIT = 0x100"

definition SDL_KEYDOWN :: "32 word" where
  "SDL_KEYDOWN = 0x300"

definition SDLK_q :: "32 word" where
  "SDLK_q = 0x71"

section \<open>Scene\<close>

record Scene =
  isRunning :: bool
  program :: "32 word"
  vertexArray :: "32 word"
  vertexCount :: "64 word"
  angleShaderParameter :: "32 word"
  angle :: fp

datatype error = DivisionByZero

text \<open>
  The constructor: \<open>sizeof(vertices) / sizeof(vertices[0])\<close> is the element count \<open>N\<close> of
  the array, and \<open>vertexCount\<close> is \<open>N / vertexSize\<close> in \<open>size_t\<close> arithmetic.  Division by
  zero has no defined result in C++ and is an error of the model.  The two members
  with default initialisers start as \<open>true\<close> and \<open>0.0f\<close>.
\<close>

definition Scene_ctor ::
  "32 word \<Rightarrow> 32 word \<Rightarrow> 'a list \<Rightarrow> 64 word \<Rightarrow> 32 word \<Rightarrow> error + Scene" where
  "Scene_ctor shaderProgram vertexArr vertices vertexSize angleParameter =
     (if vertexSize = 0 then Inl DivisionByZero
      else Inr \<lparr>isRunning = True,
                program = shaderProgram,
                vertexArray = vertexArr,
                vertexCount = (of_nat (length vertices) :: 64 word) div vertexSize,
                angleShaderParameter = angleParameter,
                angle = Finite 0\<rparr>)"

text \<open>The mesh and the vertex size of \<open>main\<close>.\<close>

definition main_vertices :: "rat list" where
  "main_vertices = [- 1, 1, - 1, - 1, 1, 1, 1, - 1]"

definition main_vertexSize :: "64 word" where
  "main_vertexSize = 2"

section \<open>Update\<close>

text \<open>The body of the \<open>switch\<close> for one polled event.\<close>

definition handle_event :: "Scene \<Rightarrow> SDL_Event \<Rightarrow> Scene" where
  "handle_event s e =
     (if ev_type e = SDL_QUIT then s\<lparr>isRunning := False\<rparr>
      else if ev_type e = SDL_KEYDOWN then
        (if key_sym e = SDLK_q then s\<lparr>isRunning := False\<rparr> else s)
      else s)"

text \<open>
  \<open>while (SDL_PollEvent(&event))\<close>: the queue of pending events is a list; each call
  removes its head, and the loop ends when the queue is empty.
\<close>

fun poll_events :: "Scene \<Rightarrow> SDL_Event list \<Rightarrow> Scene \<times> SDL_Event list" where
  "poll_events s [] = (s, [])"
| "poll_events s (e # q) = poll_events (handle_event s e) q"

text \<open>
  \<open>scene->angle += d\<close> and \<open>scene->angle -= d\<close> for a \<open>double\<close> \<open>d\<close>: the \<open>float\<close> is
  converted to \<open>double\<close>, the operation is done in \<open>double\<close>, and the result is
  converted back to \<open>float\<close>.  In the comparison with \<open>2 * M_PI\<close> the \<open>float\<close> is converted
  to \<open>double\<close> as well.
\<close>

definition float_add_assign :: "fp \<Rightarrow> fp \<Rightarrow> fp" where
  "float_add_assign a d = fp_round binary32 (fp_add binary64 (fp_round binary64 a) d)"

definition float_sub_assign :: "fp \<Rightarrow> fp \<Rightarrow> fp" where
  "float_sub_assign a d = fp_round binary32 (fp_sub binary64 (fp_round binary64 a) d)"

definition advance_angle :: "fp \<Rightarrow> fp \<Rightarrow> fp" where
  "advance_angle a secondsSinceLastUpdate =
     (let a1 = float_add_assign a (fp_mul binary64 (Finite 1) secondsSinceLastUpdate)
      in if fp_gt (fp_round binary64 a1) TWO_M_PI then float_sub_assign a1 TWO_M_PI else a1)"

text \<open>\<open>Update\<close> returns the scene and what is left of the event queue.\<close>

definition Update :: "Scene \<Rightarrow> SDL_Event list \<Rightarrow> fp \<Rightarrow> Scene \<times> SDL_Event list" where
  "Update s q secondsSinceLastUpdate =
     (case poll_events s q of (s1, q1) \<Rightarrow>
        (s1\<lparr>angle := advance_angle (angle s1) secondsSinceLastUpdate\<rparr>, q1))"

section \<open>Draw\<close>

text \<open>
  \<open>Draw\<close> reads the scene and issues the calls below, in this order.  The colour
  components are \<open>float\<close> parameters, and the vertex count is converted from \<open>size_t\<close> to
  the 32-bit \<open>GLsizei\<close>.
\<close>

datatype gl_call =
    ClearColor fp fp fp fp
  | Clear
  | UseProgram "32 word"
  | Uniform1f "32 word" fp
  | BindVertexArray "32 word"
  | DrawArraysTriangleStrip "32 word" "32 word"
  | SwapWindow

definition Draw :: "Scene \<Rightarrow> gl_call list" where
  "Draw s =
     (let grey = fp_round binary32 (fp_of_rat binary64 (15 / 100))
      in [ClearColor grey grey grey (fp_of_rat binary32 1), Clear,
          UseProgram (program s),
          Uniform1f (angleShaderParameter s) (angle s),
          BindVertexArray (vertexArray s),
          DrawArraysTriangleStrip 0 (ucast (vertexCount s)),
          BindVertexArray 0,
          UseProgram 0,
          SwapWindow])"

section \<open>GameLoop\<close>

text \<open>
  The platform, as the loop sees it: the frequency of the performance counter, the
  value of the counter at its \<open>k\<close>-th read (read \<open>0\<close> is the one before the loop), and
  the events that are posted to the queue in the course of iteration \<open>k\<close>, before
  that iteration polls.  An event stays in the queue until an \<open>Update\<close> call polls it.
\<close>

record Platform =
  perf_frequency :: "64 word"
  perf_counter :: "nat \<Rightarrow> 64 word"
  arrivals :: "nat \<Rightarrow> SDL_Event list"

datatype call = CallUpdate | CallDraw

text \<open>
  The variables of \<open>GameLoop\<close>, the event queue, and what the loop has done so far:
  the calls of every iteration, in order, and the frames drawn.
\<close>

record loop_state =
  scene :: Scene
  previousTickCount :: fp
  accumulatedTime :: fp
  iteration :: nat
  queue :: "SDL_Event list"
  calls :: "call list list"
  frames :: "gl_call list list"

definition ticksPerSecond :: "Platform \<Rightarrow> fp" where
  "ticksPerSecond pf = u64_to_double (perf_frequency pf)"

definition secondsPerUpdate :: fp where
  "secondsPerUpdate = fp_div binary64 (Finite 1) (Finite 60)"

definition GameLoop_init :: "Platform \<Rightarrow> Scene \<Rightarrow> loop_state" where
  "GameLoop_init pf s =
     \<lparr>scene = s,
      previousTickCount = u64_to_double (perf_counter pf 0),
      accumulatedTime = Finite 0,
      iteration = 0,
      queue = [],
      calls = [],
      frames = []\<rparr>"

text \<open>The seconds that the loop adds to \<open>accumulatedTime\<close> in an iteration.\<close>

definition elapsed :: "Platform \<Rightarrow> fp \<Rightarrow> nat \<Rightarrow> fp" where
  "elapsed pf prev i =
     fp_div binary64
       (fp_sub binary64 (u64_to_double (perf_counter pf (Suc i))) prev)
       (ticksPerSecond pf)"

text \<open>The body of the \<open>while\<close> loop.\<close>

definition GameLoop_body :: "Platform \<Rightarrow> loop_state \<Rightarrow> loop_state" where
  "GameLoop_body pf st =
     (let i = iteration st;
          currentTickCount = u64_to_double (perf_counter pf (Suc i));
          acc = fp_add binary64 (accumulatedTime st) (elapsed pf (previousTickCount st) i);
          q = queue st @ arrivals pf i
      in if fp_gt acc secondsPerUpdate
         then (case Update (scene st) q secondsPerUpdate of (s', q') \<Rightarrow>
            \<lparr>scene = s',
             previousTickCount = currentTickCount,
             accumulatedTime = fp_sub binary64 acc secondsPerUpdate,
             iteration = Suc i,
             queue = q',
             calls = calls st @ [[CallUpdate, CallDraw]],
             frames = frames st @ [Draw s']\<rparr>)
         else
            \<lparr>scene = scene st,
             previousTickCount = currentTickCount,
             accumulatedTime = acc,
             iteration = Suc i,
             queue = q,
             calls = calls st @ [[CallDraw]],
             frames = frames st @ [Draw (scene st)]\<rparr>)"

text \<open>
  At most \<open>n\<close> iterations of \<open>while (scene->isRunning)\<close>: the state when the loop has
  left, or after \<open>n\<close> iterations.
\<close>

fun GameLoop_iterate :: "Platform \<Rightarrow> nat \<Rightarrow> loop_state \<Rightarrow> loop_state" where
  "GameLoop_iterate pf 0 st = st"
| "GameLoop_iterate pf (Suc n) st =
     (if isRunning (scene st) then GameLoop_iterate pf n (GameLoop_body pf st) else st)"


section \<open>Notions used by the properties\<close>

text \<open>
  A quit-type event: a quit request, or a key press of the designated quit key.
\<close>

definition is_quit_event :: "SDL_Event \<Rightarrow> bool" where
  "is_quit_event e \<longleftrightarrow>
     ev_type e = SDL_QUIT \<or> (ev_type e = SDL_KEYDOWN \<and> key_sym e = SDLK_q)"

text \<open>
  A sequence of \<open>Update\<close> calls with one time step; the \<open>k\<close>-th call finds the events
  of the \<open>k\<close>-th list pending.
\<close>

fun Update_seq :: "Scene \<Rightarrow> SDL_Event list list \<Rightarrow> fp \<Rightarrow> Scene" where
  "Update_seq s [] dt = s"
| "Update_seq s (q # qs) dt = Update_seq (fst (Update s q dt)) qs dt"

text \<open>The second half of the angle update: the test and the subtraction.\<close>

definition wrap_angle :: "fp \<Rightarrow> fp" where
  "wrap_angle a1 =
     (if fp_gt (fp_round binary64 a1) TWO_M_PI then float_sub_assign a1 TWO_M_PI else a1)"

text \<open>The angle after \<open>n\<close> steps, without the rest of the scene.\<close>

fun iter_angle :: "nat \<Rightarrow> fp \<Rightarrow> fp \<Rightarrow> fp" where
  "iter_angle 0 a d = a"
| "iter_angle (Suc n) a d = iter_angle n (advance_angle a d) d"

text \<open>
  The value of \<open>2 * M_PI\<close>, and its two neighbours among the binary32 numbers: no
  \<open>float\<close> lies strictly between \<open>below_2pi\<close> and \<open>above_2pi\<close>.
\<close>

definition two_pi_double :: rat where
  "two_pi_double = 884279719003555 / 2 ^ 47"

definition below_2pi :: rat where
  "below_2pi = 13176794 / 2 ^ 21"

definition above_2pi :: rat where
  "above_2pi = 13176795 / 2 ^ 21"

text \<open>A floating-point value exceeds the real number \<open>2\<pi>\<close>.\<close>

fun exceeds_two_pi :: "fp \<Rightarrow> bool" where
  "exceeds_two_pi (Finite x) = (2 * pi < real_of_rat x)"
| "exceeds_two_pi PInf = True"
| "exceeds_two_pi NInf = False"
| "exceeds_two_pi NaN = False"

text \<open>
  The wrap as the specification words it: add \<open>rate * dt\<close> with \<open>rate = 1.0\<close>, then
  subtract \<open>2\<pi>\<close> once if the sum exceeds \<open>2\<pi>\<close>.  The sum and the difference are
  \<open>float\<close> results; the test is against the real number \<open>2\<pi>\<close>.
\<close>

definition spec_wrap_once :: "fp \<Rightarrow> fp \<Rightarrow> fp" where
  "spec_wrap_once a dt =
     (let a1 = float_add_assign a (fp_mul binary64 (Finite 1) dt)
      in if exceeds_two_pi a1 then float_sub_assign a1 TWO_M_PI else a1)"

text \<open>
  The clock advances by exactly \<open>secondsPerUpdate\<close> between consecutive reads, for the
  first \<open>n\<close> iterations: the seconds computed from read \<open>k\<close> and read \<open>k + 1\<close> are the
  \<open>double\<close> \<open>secondsPerUpdate\<close>.
\<close>

definition clock_exact :: "Platform \<Rightarrow> nat \<Rightarrow> bool" where
  "clock_exact pf n =
     list_all (\<lambda>k. elapsed pf (u64_to_double (perf_counter pf k)) k = secondsPerUpdate) [0..<n]"

text \<open>The events that an \<open>Update\<close> call of the next iteration would poll.\<close>

definition polled :: "Platform \<Rightarrow> loop_state \<Rightarrow> SDL_Event list" where
  "polled pf st = queue st @ arrivals pf (iteration st)"

text \<open>The value of \<open>accumulatedTime\<close> after the addition in the next iteration.\<close>

definition acc_next :: "Platform \<Rightarrow> loop_state \<Rightarrow> fp" where
  "acc_next pf st =
     fp_add binary64 (accumulatedTime st) (elapsed pf (previousTickCount st) (iteration st))"

subsection \<open>Concrete scenes, events and platforms\<close>

definition main_scene :: Scene where
  "main_scene = \<lparr>isRunning = True, program = 3, vertexArray = 1, vertexCount = 4,
                  angleShaderParameter = 0, angle = Finite 0\<rparr>"

definition quit_event :: SDL_Event where
  "quit_event = \<lparr>ev_type = SDL_QUIT, key_sym = 0\<rparr>"

definition key_q_event :: SDL_Event where
  "key_q_event = \<lparr>ev_type = SDL_KEYDOWN, key_sym = SDLK_q\<rparr>"

definition key_a_event :: SDL_Event where
  "key_a_event = \<lparr>ev_type = SDL_KEYDOWN, key_sym = 0x61\<rparr>"

definition mouse_event :: SDL_Event where
  "mouse_event = \<lparr>ev_type = 0x400, key_sym = 0\<rparr>"

text \<open>A 60 Hz counter that advances by one tick between reads; no events.\<close>

definition pf_60Hz :: Platform where
  "pf_60Hz = \<lparr>perf_frequency = 60, perf_counter = (\<lambda>k. of_nat k), arrivals = (\<lambda>k. [])\<rparr>"


text \<open>A counter of frequency 1 that jumps by 1000 ticks in its first interval.\<close>

definition pf_stall :: Platform where
  "pf_stall = \<lparr>perf_frequency = 1, perf_counter = (\<lambda>k. if k = 0 then 0 else 1000),
                arrivals = (\<lambda>k. [])\<rparr>"

section \<open>Properties of the rounding\<close>

lemma pow2_powi: "pow2 e = 2 powi e"
  by (simp add: pow2_def power_int_def power_one_over inverse_eq_divide)

lemma pow2_pos: "0 < pow2 e"
  by (simp add: pow2_powi)

lemma pow2_add: "pow2 (a + b) = pow2 a * pow2 b"
  by (simp add: pow2_powi power_int_add)

lemma pow2_Suc: "pow2 (e + 1) = 2 * pow2 e"
  by (simp add: pow2_powi power_int_add)

lemma pow2_mono: "a \<le> b \<Longrightarrow> pow2 a \<le> pow2 b"
  by (simp add: pow2_powi power_int_increasing)

lemma pow2_strict_mono: "a < b \<Longrightarrow> pow2 a < pow2 b"
  by (simp add: pow2_powi power_int_strict_increasing)

lemma pow2_of_int: "0 \<le> e \<Longrightarrow> pow2 e = of_int (2 ^ nat e)"
  by (simp add: pow2_def)

lemma pow2_diff: "pow2 (a - b) = pow2 a / pow2 b"
  by (simp add: pow2_powi power_int_diff)

lemma bitlen_pow2_bounds:
  assumes "0 < a"
  shows "pow2 (bitlen a - 1) \<le> of_int a" "of_int a < pow2 (bitlen a)"
proof -
  have n: "1 \<le> bitlen a" using assms by (simp add: bitlen_alt_def)
  have "(2::int) ^ nat (bitlen a - 1) \<le> a" "a < 2 ^ nat (bitlen a)"
    using bitlen_bounds[OF assms] by simp_all
  then have "rat_of_int (2 ^ nat (bitlen a - 1)) \<le> of_int a" "rat_of_int a < of_int (2 ^ nat (bitlen a))"
    by (simp_all only: of_int_le_iff of_int_less_iff)
  then show "pow2 (bitlen a - 1) \<le> of_int a" "of_int a < pow2 (bitlen a)"
    using n by (simp_all add: pow2_of_int)
qed

lemma ilog2_bounds:
  assumes "0 < x"
  shows "pow2 (ilog2 x) \<le> x \<and> x < pow2 (ilog2 x + 1)"
proof -
  obtain a b where q: "quotient_of x = (a, b)" by (cases "quotient_of x")
  have b: "0 < b" using q by (rule quotient_of_denom_pos)
  have x: "x = of_int a / of_int b" using q by (rule quotient_of_div)
  have a: "0 < a" using assms b x by (simp add: zero_less_divide_iff)
  define d where "d = bitlen a - bitlen b"
  note A = bitlen_pow2_bounds[OF a] and B = bitlen_pow2_bounds[OF b]
  have bpos: "0 < rat_of_int b" using b by simp
  have "x < pow2 (bitlen a) / pow2 (bitlen b - 1)"
    unfolding x using A(2) B(1) bpos pow2_pos[of "bitlen b - 1"]
    by (meson frac_less less_imp_le of_int_pos a order.strict_implies_order zero_le_one of_int_nonneg)
  then have up: "x < pow2 (d + 1)"
    by (simp add: d_def pow2_diff[symmetric] algebra_simps)
  have "pow2 (bitlen a - 1) / pow2 (bitlen b) < x"
    unfolding x using A(1) B(2) bpos pow2_pos[of "bitlen a - 1"]
    by (meson frac_less2 less_imp_le)
  then have lo: "pow2 (d - 1) < x"
    by (simp add: d_def pow2_diff[symmetric] algebra_simps)
  have il: "ilog2 x = (if pow2 d \<le> x then d else d - 1)"
    by (simp add: ilog2_def q d_def Let_def)
  show ?thesis
    using up lo by (auto simp: il)
qed

lemma ilog2_unique:
  assumes "pow2 k \<le> x" "x < pow2 (k + 1)"
  shows "ilog2 x = k"
proof -
  have x: "0 < x" using assms(1) pow2_pos[of k] by simp
  note I = ilog2_bounds[OF x]
  have "\<not> ilog2 x < k"
  proof
    assume "ilog2 x < k"
    then have "pow2 (ilog2 x + 1) \<le> pow2 k" by (intro pow2_mono) simp
    with I assms show False by simp
  qed
  moreover have "\<not> k < ilog2 x"
  proof
    assume "k < ilog2 x"
    then have "pow2 (k + 1) \<le> pow2 (ilog2 x)" by (intro pow2_mono) simp
    with I assms show False by simp
  qed
  ultimately show ?thesis by simp
qed

lemma ilog2_mono:
  assumes "0 < x" "x \<le> y"
  shows "ilog2 x \<le> ilog2 y"
proof (rule ccontr)
  assume "\<not> ilog2 x \<le> ilog2 y"
  then have "pow2 (ilog2 y + 1) \<le> pow2 (ilog2 x)" by (intro pow2_mono) simp
  moreover have "0 < y" using assms by simp
  ultimately show False
    using ilog2_bounds[OF assms(1)] ilog2_bounds[OF \<open>0 < y\<close>] assms(2) by simp
qed

lemma rne_of_int: "rne (of_int n) = n"
  by (simp add: rne_def)

lemma rne_floor_bounds: "\<lfloor>x\<rfloor> \<le> rne x \<and> rne x \<le> \<lfloor>x\<rfloor> + 1"
  by (simp add: rne_def Let_def)

lemma rne_mono:
  assumes "x \<le> y"
  shows "rne x \<le> rne y"
proof -
  have fl: "\<lfloor>x\<rfloor> \<le> \<lfloor>y\<rfloor>" using assms by (rule floor_mono)
  show ?thesis
  proof (cases "\<lfloor>x\<rfloor> = \<lfloor>y\<rfloor>")
    case True
    then show ?thesis using assms
      by (auto simp: rne_def Let_def)
  next
    case False
    with fl have "\<lfloor>x\<rfloor> + 1 \<le> \<lfloor>y\<rfloor>" by simp
    then show ?thesis
      using rne_floor_bounds[of x] rne_floor_bounds[of y] by linarith
  qed
qed

lemma rne_le_int: "x \<le> of_int n \<Longrightarrow> rne x \<le> n"
  using rne_mono[of x "of_int n"] by (simp add: rne_of_int)

lemma rne_ge_int: "of_int n \<le> x \<Longrightarrow> n \<le> rne x"
  using rne_mono[of "of_int n" x] by (simp add: rne_of_int)

lemma round_mag_alt:
  "round_mag f x = of_int (rne (x / pow2 (max (ilog2 x) (emin f) - int (prec f) + 1)))
                   * pow2 (max (ilog2 x) (emin f) - int (prec f) + 1)"
  by (simp add: round_mag_def Let_def)

lemma round_mag_nonneg: "0 \<le> x \<Longrightarrow> 0 \<le> round_mag f x"
  using rne_ge_int[of 0 "x / pow2 (max (ilog2 x) (emin f) - int (prec f) + 1)"]
    pow2_pos[of "max (ilog2 x) (emin f) - int (prec f) + 1"]
  by (simp add: round_mag_alt)

lemma round_mag_upper:
  assumes "0 < x" "max (ilog2 x) (emin f) \<le> e" "0 < prec f"
  shows "round_mag f x \<le> pow2 (e + 1)"
proof -
  define e0 where "e0 = max (ilog2 x) (emin f)"
  define q where "q = pow2 (e0 - int (prec f) + 1)"
  have q: "0 < q" by (simp add: q_def pow2_pos)
  have "x < pow2 (ilog2 x + 1)" using ilog2_bounds[OF assms(1)] by simp
  also have "\<dots> \<le> pow2 (e0 + 1)" by (intro pow2_mono) (simp add: e0_def)
  finally have "x / q \<le> pow2 (e0 + 1) / q" using q by (simp add: divide_right_mono)
  also have "pow2 (e0 + 1) / q = pow2 (int (prec f))"
    by (simp add: q_def pow2_diff[symmetric])
  also have "\<dots> = of_int (2 ^ prec f)" by (simp add: pow2_of_int)
  finally have "rne (x / q) \<le> 2 ^ prec f" by (rule rne_le_int)
  then have "rat_of_int (rne (x / q)) \<le> of_int (2 ^ prec f)" by (simp only: of_int_le_iff)
  then have "of_int (rne (x / q)) * q \<le> of_int (2 ^ prec f) * q"
    using q by (simp add: mult_right_mono)
  also have "of_int (2 ^ prec f) * q = pow2 (int (prec f)) * q" by (simp add: pow2_of_int)
  also have "\<dots> = pow2 (e0 + 1)" by (simp add: q_def pow2_add[symmetric])
  also have "\<dots> \<le> pow2 (e + 1)" using assms(2) by (intro pow2_mono) (simp add: e0_def)
  finally show ?thesis by (simp add: round_mag_alt q_def e0_def)
qed

lemma round_mag_lower:
  assumes "0 < x" "emin f \<le> ilog2 x" "0 < prec f"
  shows "pow2 (ilog2 x) \<le> round_mag f x"
proof -
  define e0 where "e0 = ilog2 x"
  define q where "q = pow2 (e0 - int (prec f) + 1)"
  have m: "max (ilog2 x) (emin f) = e0" using assms(2) by (simp add: e0_def)
  have q: "0 < q" by (simp add: q_def pow2_pos)
  have "of_int (2 ^ (prec f - 1)) = pow2 (int (prec f) - 1)"
    using assms(3) by (simp add: pow2_of_int nat_diff_distrib')
  also have "\<dots> = pow2 e0 / q" by (simp add: q_def pow2_diff[symmetric])
  also have "\<dots> \<le> x / q" using ilog2_bounds[OF assms(1)] q by (simp add: divide_right_mono e0_def)
  finally have "2 ^ (prec f - 1) \<le> rne (x / q)" by (rule rne_ge_int)
  then have "rat_of_int (2 ^ (prec f - 1)) \<le> of_int (rne (x / q))" by (simp only: of_int_le_iff)
  then have *: "of_int (2 ^ (prec f - 1)) * q \<le> of_int (rne (x / q)) * q"
    using q by (simp add: mult_right_mono)
  have "pow2 e0 = pow2 (int (prec f) - 1) * q" by (simp add: q_def pow2_add[symmetric])
  also have "\<dots> = rat_of_int (2 ^ (prec f - 1)) * q"
    using assms(3) by (simp add: pow2_of_int nat_diff_distrib')
  also note *
  finally show ?thesis unfolding round_mag_alt m q_def e0_def .
qed

lemma round_mag_mono:
  assumes "0 < x" "x \<le> y" "0 < prec f"
  shows "round_mag f x \<le> round_mag f y"
proof -
  have y: "0 < y" using assms by simp
  define ex where "ex = max (ilog2 x) (emin f)"
  define ey where "ey = max (ilog2 y) (emin f)"
  have le: "ex \<le> ey" using ilog2_mono[OF assms(1,2)] by (simp add: ex_def ey_def)
  show ?thesis
  proof (cases "ex = ey")
    case True
    define q where "q = pow2 (ex - int (prec f) + 1)"
    have q: "0 < q" by (simp add: q_def pow2_pos)
    have "x / q \<le> y / q" using assms(2) q by (simp add: divide_right_mono)
    then have "rat_of_int (rne (x / q)) \<le> of_int (rne (y / q))"
      by (simp only: of_int_le_iff rne_mono)
    then have "of_int (rne (x / q)) * q \<le> of_int (rne (y / q)) * q"
      using q by (simp add: mult_right_mono)
    then show ?thesis using True by (simp add: round_mag_alt q_def ex_def ey_def)
  next
    case False
    with le have lt: "ex + 1 \<le> ey" by simp
    then have ey: "ey = ilog2 y" "emin f \<le> ilog2 y" by (auto simp: ey_def ex_def)
    have "round_mag f x \<le> pow2 (ex + 1)"
      by (rule round_mag_upper[OF assms(1) _ assms(3)]) (simp add: ex_def)
    also have "\<dots> \<le> pow2 (ilog2 y)" using lt ey by (intro pow2_mono) simp
    also have "\<dots> \<le> round_mag f y" by (rule round_mag_lower[OF y ey(2) assms(3)])
    finally show ?thesis .
  qed
qed

lemma prec32: "0 < prec binary32"
  by (simp add: binary32_def)

lemma prec64: "0 < prec binary64"
  by (simp add: binary64_def)

lemma fp_of_rat_pos:
  "0 < x \<Longrightarrow> fp_of_rat f x =
     (if 0 < round_mag f x \<and> emax f < ilog2 (round_mag f x) then PInf
      else Finite (round_mag f x))"
  by (simp add: fp_of_rat_def Let_def)

lemma fp_of_rat_fixD:
  assumes "fp_of_rat f B = Finite B" "0 < B"
  shows "round_mag f B = B" "ilog2 B \<le> emax f"
proof -
  from assms show r: "round_mag f B = B"
    by (auto simp: fp_of_rat_pos split: if_splits)
  from assms r show "ilog2 B \<le> emax f"
    by (auto simp: fp_of_rat_pos split: if_splits)
qed

lemma fp_of_rat_bounded:
  assumes "0 \<le> x" "x \<le> B" "fp_of_rat f B = Finite B" "0 < prec f"
  shows "\<exists>a. fp_of_rat f x = Finite a \<and> 0 \<le> a \<and> a \<le> B"
proof (cases "x = 0")
  case True
  then show ?thesis using assms(1,2) by (simp add: fp_of_rat_def)
next
  case False
  then have x: "0 < x" using assms(1) by simp
  then have B: "0 < B" using assms(2) by simp
  note rB = fp_of_rat_fixD[OF assms(3) B]
  have le: "round_mag f x \<le> B"
    using round_mag_mono[OF x assms(2,4)] rB(1) by simp
  have "\<not> (0 < round_mag f x \<and> emax f < ilog2 (round_mag f x))"
    using ilog2_mono[of "round_mag f x" B] le rB(2) by auto
  then show ?thesis
    using le round_mag_nonneg[of x f] x by (auto simp: fp_of_rat_pos)
qed

lemma fp_of_rat_lower:
  assumes "0 < L" "L \<le> x" "fp_of_rat f L = Finite L" "0 < prec f"
  shows "fp_of_rat f x = PInf \<or> (\<exists>a. fp_of_rat f x = Finite a \<and> L \<le> a)"
proof -
  have x: "0 < x" using assms(1,2) by simp
  note rL = fp_of_rat_fixD[OF assms(3,1)]
  have "L \<le> round_mag f x"
    using round_mag_mono[OF assms(1,2,4)] rL by simp
  then show ?thesis using x by (simp add: fp_of_rat_pos)
qed

lemma fp_of_rat_neg:
  assumes "x < 0"
  shows "fp_of_rat f x = NInf \<or> (\<exists>a. fp_of_rat f x = Finite a \<and> a \<le> 0)"
  using assms round_mag_nonneg[of "\<bar>x\<bar>" f]
  by (simp add: fp_of_rat_def Let_def)

lemma ilog2_pow2: "ilog2 (pow2 k) = k"
  by (rule ilog2_unique) (simp_all add: pow2_strict_mono)

lemma binary32_grid:
  assumes "4 \<le> x" "x < 8"
  shows "fp_of_rat binary32 x = Finite (of_int (rne (x * 2 ^ 21)) / 2 ^ 21)"
proof -
  have x: "0 < x" using assms by simp
  have p2: "pow2 2 = 4" "pow2 (2 + 1) = 8" by (simp_all add: pow2_def)
  have il: "ilog2 x = 2"
    by (rule ilog2_unique) (use assms p2 in simp_all)
  have up: "round_mag binary32 x \<le> pow2 (2 + 1)"
    by (rule round_mag_upper[OF x _ prec32]) (simp add: il binary32_def)
  have no: "\<not> (0 < round_mag binary32 x \<and> emax binary32 < ilog2 (round_mag binary32 x))"
    using ilog2_mono[OF _ up] by (auto simp: ilog2_pow2 binary32_def)
  have "round_mag binary32 x = of_int (rne (x * 2 ^ 21)) / 2 ^ 21"
    by (simp add: round_mag_alt il binary32_def pow2_def)
  then show ?thesis using x no by (auto simp: fp_of_rat_pos)
qed

section \<open>Evaluation of the rounding on concrete values\<close>

lemma fp_of_rat_binade:
  assumes "pow2 k \<le> x" "x < pow2 (k + 1)" "emin f \<le> k" "k < emax f" "0 < prec f"
  shows "fp_of_rat f x =
    Finite (of_int (rne (x / pow2 (k - int (prec f) + 1))) * pow2 (k - int (prec f) + 1))"
proof -
  have x: "0 < x" using assms(1) pow2_pos[of k] by simp
  have il: "ilog2 x = k" using assms(1,2) by (rule ilog2_unique)
  have up: "round_mag f x \<le> pow2 (k + 1)"
    by (rule round_mag_upper[OF x _ assms(5)]) (use assms(3) in \<open>simp add: il\<close>)
  have no: "\<not> (0 < round_mag f x \<and> emax f < ilog2 (round_mag f x))"
    using ilog2_mono[OF _ up] assms(4) by (auto simp: ilog2_pow2)
  have "round_mag f x =
      of_int (rne (x / pow2 (k - int (prec f) + 1))) * pow2 (k - int (prec f) + 1)"
    using assms(3) by (simp add: round_mag_alt il max_def)
  then show ?thesis using x no by (auto simp: fp_of_rat_pos)
qed

lemma rne_eval:
  "rne x = (if x - of_int \<lfloor>x\<rfloor> < 1 / 2 then \<lfloor>x\<rfloor>
            else if 1 / 2 < x - of_int \<lfloor>x\<rfloor> then \<lfloor>x\<rfloor> + 1
            else if even \<lfloor>x\<rfloor> then \<lfloor>x\<rfloor> else \<lfloor>x\<rfloor> + 1)"
  by (simp add: rne_def Let_def)

lemma floor_rat_numeral_divide:
  "\<lfloor>(numeral a :: rat) / numeral b\<rfloor> = numeral a div numeral b"
  by (metis floor_divide_of_int_eq of_int_numeral)

lemma advance_angle_eval:
  "advance_angle a d =
     (if fp_gt (fp_round binary64 (float_add_assign a (fp_mul binary64 (Finite 1) d))) TWO_M_PI
      then float_sub_assign (float_add_assign a (fp_mul binary64 (Finite 1) d)) TWO_M_PI
      else float_add_assign a (fp_mul binary64 (Finite 1) d))"
  by (simp add: advance_angle_def Let_def)

lemma iter_angle_numeral:
  "iter_angle (numeral k) a d = iter_angle (pred_numeral k) (advance_angle a d) d"
  by (simp add: numeral_eq_Suc)

lemma fp_of_rat_0: "fp_of_rat f 0 = Finite 0"
  by (simp add: fp_of_rat_def)

lemma round32_eval:
  "1 / 8192 \<le> x \<Longrightarrow> x < 1 / 4096 \<Longrightarrow>
     fp_of_rat binary32 x = Finite (of_int (rne (x * 2 ^ 36)) / 2 ^ 36)"
  "1 / 64 \<le> x \<Longrightarrow> x < 1 / 32 \<Longrightarrow>
     fp_of_rat binary32 x = Finite (of_int (rne (x * 2 ^ 29)) / 2 ^ 29)"
  "1 / 32 \<le> x \<Longrightarrow> x < 1 / 16 \<Longrightarrow>
     fp_of_rat binary32 x = Finite (of_int (rne (x * 2 ^ 28)) / 2 ^ 28)"
  "1 / 16 \<le> x \<Longrightarrow> x < 1 / 8 \<Longrightarrow>
     fp_of_rat binary32 x = Finite (of_int (rne (x * 2 ^ 27)) / 2 ^ 27)"
  "1 / 8 \<le> x \<Longrightarrow> x < 1 / 4 \<Longrightarrow>
     fp_of_rat binary32 x = Finite (of_int (rne (x * 2 ^ 26)) / 2 ^ 26)"
  "1 / 4 \<le> x \<Longrightarrow> x < 1 / 2 \<Longrightarrow>
     fp_of_rat binary32 x = Finite (of_int (rne (x * 2 ^ 25)) / 2 ^ 25)"
  "1 / 2 \<le> x \<Longrightarrow> x < 1 \<Longrightarrow>
     fp_of_rat binary32 x = Finite (of_int (rne (x * 2 ^ 24)) / 2 ^ 24)"
  "1 \<le> x \<Longrightarrow> x < 2 \<Longrightarrow>
     fp_of_rat binary32 x = Finite (of_int (rne (x * 2 ^ 23)) / 2 ^ 23)"
  "2 \<le> x \<Longrightarrow> x < 4 \<Longrightarrow>
     fp_of_rat binary32 x = Finite (of_int (rne (x * 2 ^ 22)) / 2 ^ 22)"
  "4 \<le> x \<Longrightarrow> x < 8 \<Longrightarrow>
     fp_of_rat binary32 x = Finite (of_int (rne (x * 2 ^ 21)) / 2 ^ 21)"
  "8 \<le> x \<Longrightarrow> x < 16 \<Longrightarrow>
     fp_of_rat binary32 x = Finite (of_int (rne (x * 2 ^ 20)) / 2 ^ 20)"
  "16 \<le> x \<Longrightarrow> x < 32 \<Longrightarrow>
     fp_of_rat binary32 x = Finite (of_int (rne (x * 2 ^ 19)) / 2 ^ 19)"
  using fp_of_rat_binade[of "-13" x binary32]
    fp_of_rat_binade[of "-6" x binary32]
    fp_of_rat_binade[of "-5" x binary32]
    fp_of_rat_binade[of "-4" x binary32]
    fp_of_rat_binade[of "-3" x binary32]
    fp_of_rat_binade[of "-2" x binary32]
    fp_of_rat_binade[of "-1" x binary32]
    fp_of_rat_binade[of "0" x binary32]
    fp_of_rat_binade[of "1" x binary32]
    fp_of_rat_binade[of "2" x binary32]
    fp_of_rat_binade[of "3" x binary32]
    fp_of_rat_binade[of "4" x binary32]
  by (simp_all add: pow2_def binary32_def)

lemma round64_eval:
  "1 / 8192 \<le> x \<Longrightarrow> x < 1 / 4096 \<Longrightarrow>
     fp_of_rat binary64 x = Finite (of_int (rne (x * 2 ^ 65)) / 2 ^ 65)"
  "1 / 64 \<le> x \<Longrightarrow> x < 1 / 32 \<Longrightarrow>
     fp_of_rat binary64 x = Finite (of_int (rne (x * 2 ^ 58)) / 2 ^ 58)"
  "1 / 32 \<le> x \<Longrightarrow> x < 1 / 16 \<Longrightarrow>
     fp_of_rat binary64 x = Finite (of_int (rne (x * 2 ^ 57)) / 2 ^ 57)"
  "1 / 16 \<le> x \<Longrightarrow> x < 1 / 8 \<Longrightarrow>
     fp_of_rat binary64 x = Finite (of_int (rne (x * 2 ^ 56)) / 2 ^ 56)"
  "1 / 8 \<le> x \<Longrightarrow> x < 1 / 4 \<Longrightarrow>
     fp_of_rat binary64 x = Finite (of_int (rne (x * 2 ^ 55)) / 2 ^ 55)"
  "1 / 4 \<le> x \<Longrightarrow> x < 1 / 2 \<Longrightarrow>
     fp_of_rat binary64 x = Finite (of_int (rne (x * 2 ^ 54)) / 2 ^ 54)"
  "1 / 2 \<le> x \<Longrightarrow> x < 1 \<Longrightarrow>
     fp_of_rat binary64 x = Finite (of_int (rne (x * 2 ^ 53)) / 2 ^ 53)"
  "1 \<le> x \<Longrightarrow> x < 2 \<Longrightarrow>
     fp_of_rat binary64 x = Finite (of_int (rne (x * 2 ^ 52)) / 2 ^ 52)"
  "2 \<le> x \<Longrightarrow> x < 4 \<Longrightarrow>
     fp_of_rat binary64 x = Finite (of_int (rne (x * 2 ^ 51)) / 2 ^ 51)"
  "4 \<le> x \<Longrightarrow> x < 8 \<Longrightarrow>
     fp_of_rat binary64 x = Finite (of_int (rne (x * 2 ^ 50)) / 2 ^ 50)"
  "8 \<le> x \<Longrightarrow> x < 16 \<Longrightarrow>
     fp_of_rat binary64 x = Finite (of_int (rne (x * 2 ^ 49)) / 2 ^ 49)"
  "16 \<le> x \<Longrightarrow> x < 32 \<Longrightarrow>
     fp_of_rat binary64 x = Finite (of_int (rne (x * 2 ^ 48)) / 2 ^ 48)"
  "32 \<le> x \<Longrightarrow> x < 64 \<Longrightarrow>
     fp_of_rat binary64 x = Finite (of_int (rne (x * 2 ^ 47)) / 2 ^ 47)"
  "512 \<le> x \<Longrightarrow> x < 1024 \<Longrightarrow>
     fp_of_rat binary64 x = Finite (of_int (rne (x * 2 ^ 43)) / 2 ^ 43)"
  using fp_of_rat_binade[of "-13" x binary64]
    fp_of_rat_binade[of "-6" x binary64]
    fp_of_rat_binade[of "-5" x binary64]
    fp_of_rat_binade[of "-4" x binary64]
    fp_of_rat_binade[of "-3" x binary64]
    fp_of_rat_binade[of "-2" x binary64]
    fp_of_rat_binade[of "-1" x binary64]
    fp_of_rat_binade[of "0" x binary64]
    fp_of_rat_binade[of "1" x binary64]
    fp_of_rat_binade[of "2" x binary64]
    fp_of_rat_binade[of "3" x binary64]
    fp_of_rat_binade[of "4" x binary64]
    fp_of_rat_binade[of "5" x binary64]
    fp_of_rat_binade[of "9" x binary64]
  by (simp_all add: pow2_def binary64_def)

lemma TWO_M_PI_value: "TWO_M_PI = Finite two_pi_double"
  by code_simp

lemma secondsPerUpdate_value: "secondsPerUpdate = Finite (4803839602528529 / 2 ^ 58)"
  by code_simp

lemmas fp_eval = fp_of_rat_0 round32_eval round64_eval rne_eval floor_rat_numeral_divide
  TWO_M_PI_value two_pi_double_def secondsPerUpdate_value
  advance_angle_eval float_add_assign_def float_sub_assign_def fp_sub_def

lemma fix_vals:
  "fp_of_rat binary64 6 = Finite 6"
  "fp_of_rat binary64 (25 / 2) = Finite (25 / 2)"
  "fp_of_rat binary32 (25 / 2) = Finite (25 / 2)"
  "fp_of_rat binary64 (25 / 4) = Finite (25 / 4)"
  "fp_of_rat binary32 (25 / 4) = Finite (25 / 4)"
  "fp_of_rat binary32 4 = Finite 4"
  "fp_of_rat binary32 8 = Finite 8"
  "fp_of_rat binary64 (13176794 / 2 ^ 21) = Finite (13176794 / 2 ^ 21)"
  by (simp_all add: fp_eval)

section \<open>Every \<open>float\<close> is a \<open>double\<close>\<close>

lemma round_mag_fix_scaled:
  assumes "0 < n" "emin f \<le> ilog2 (of_int n * pow2 k)"
    and "ilog2 (of_int n * pow2 k) - int (prec f) + 1 \<le> k"
  shows "round_mag f (of_int n * pow2 k) = of_int n * pow2 k"
proof -
  define m where "m = rat_of_int n * pow2 k"
  define j where "j = k - (ilog2 m - int (prec f) + 1)"
  have j: "0 \<le> j" using assms(3) by (simp add: j_def m_def)
  have "m / pow2 (ilog2 m - int (prec f) + 1) = of_int n * pow2 j"
    by (simp add: m_def j_def pow2_diff)
  also have "\<dots> = of_int (n * 2 ^ nat j)" using j by (simp add: pow2_of_int)
  finally have "rne (m / pow2 (ilog2 m - int (prec f) + 1)) = n * 2 ^ nat j"
    by (simp only: rne_of_int)
  then have "round_mag f m = of_int (n * 2 ^ nat j) * pow2 (ilog2 m - int (prec f) + 1)"
    using assms(2) by (simp add: round_mag_alt max_def m_def)
  also have "\<dots> = of_int n * (pow2 j * pow2 (ilog2 m - int (prec f) + 1))"
    using j by (simp add: pow2_of_int)
  also have "pow2 j * pow2 (ilog2 m - int (prec f) + 1) = pow2 k"
    by (simp add: pow2_add[symmetric] j_def)
  finally show ?thesis by (simp add: m_def)
qed

lemma binary32_magnitude_is_binary64:
  assumes "0 < x" "m = round_mag binary32 x" "0 < m" "ilog2 m \<le> emax binary32"
  shows "round_mag binary64 m = m"
proof -
  define e where "e = max (ilog2 x) (emin binary32)"
  define k where "k = e - int (prec binary32) + 1"
  define n where "n = rne (x / pow2 k)"
  have m: "m = of_int n * pow2 k"
    by (simp add: assms(2) round_mag_alt n_def k_def e_def)
  have n: "0 < n" using assms(3) pow2_pos[of k] by (simp add: m zero_less_mult_iff)
  have "m \<le> pow2 (e + 1)"
    unfolding assms(2) by (rule round_mag_upper[OF assms(1) _ prec32]) (simp add: e_def)
  then have up: "ilog2 m \<le> e + 1"
    using ilog2_mono[OF assms(3), of "pow2 (e + 1)"] by (simp add: ilog2_pow2)
  have "pow2 k \<le> m" using n pow2_pos[of k] by (simp add: m)
  then have lo: "k \<le> ilog2 m"
    using ilog2_mono[OF pow2_pos, of k m] by (simp add: ilog2_pow2)
  have ek: "- 126 \<le> e" "k = e - 23" by (simp_all add: e_def k_def binary32_def)
  have il: "ilog2 (rat_of_int n * pow2 k) = ilog2 m" by (simp only: m)
  show ?thesis
    unfolding m
  proof (rule round_mag_fix_scaled[OF n])
    show "emin binary64 \<le> ilog2 (rat_of_int n * pow2 k)"
      unfolding il using lo ek by (simp add: binary64_def)
    show "ilog2 (rat_of_int n * pow2 k) - int (prec binary64) + 1 \<le> k"
      unfolding il using up ek by (simp add: binary64_def)
  qed
qed

lemma binary32_is_binary64:
  "fp_round binary64 (fp_of_rat binary32 x) = fp_of_rat binary32 x"
proof (cases "x = 0")
  case True
  then show ?thesis by (simp add: fp_of_rat_0)
next
  case False
  define m where "m = round_mag binary32 \<bar>x\<bar>"
  have ax: "0 < \<bar>x\<bar>" using False by simp
  have m0: "0 \<le> m" unfolding m_def by (rule round_mag_nonneg) simp
  show ?thesis
  proof (cases "0 < m \<and> emax binary32 < ilog2 m")
    case True
    then show ?thesis using False by (simp add: fp_of_rat_def m_def[symmetric])
  next
    case False
    note ok = this
    have r32: "fp_of_rat binary32 x = Finite (if x < 0 then - m else m)"
      using \<open>x \<noteq> 0\<close> ok by (simp add: fp_of_rat_def m_def[symmetric])
    show ?thesis
    proof (cases "m = 0")
      case True
      then show ?thesis by (simp add: r32 fp_of_rat_0)
    next
      case False
      then have mp: "0 < m" using m0 by simp
      have le: "ilog2 m \<le> emax binary32" using ok mp by simp
      have fx: "round_mag binary64 m = m"
        by (rule binary32_magnitude_is_binary64[OF ax m_def mp le])
      have "\<not> emax binary64 < ilog2 m" using le by (simp add: binary32_def binary64_def)
      then have "fp_of_rat binary64 (if x < 0 then - m else m) = Finite (if x < 0 then - m else m)"
        using mp fx by (simp add: fp_of_rat_def)
      then show ?thesis by (simp add: r32)
    qed
  qed
qed

lemma float_to_double_exact:
  "fp_round binary64 (fp_round binary32 v) = fp_round binary32 v"
  by (cases v) (simp_all add: binary32_is_binary64)

section \<open>The neighbourhood of \<open>2\<pi>\<close>\<close>

lemma arctan_partial_sums:
  fixes x :: real
  assumes "0 < x" "x \<le> 1"
  shows "(\<Sum>k<2 * n. (- 1) ^ k * (1 / real (k * 2 + 1) * x ^ (k * 2 + 1))) \<le> arctan x"
    and "arctan x \<le> (\<Sum>k<2 * n + 1. (- 1) ^ k * (1 / real (k * 2 + 1) * x ^ (k * 2 + 1)))"
proof -
  have ax: "\<bar>x\<bar> \<le> 1" using assms by simp
  have "0 < 1 / real (0 * 2 + 1) * x ^ (0 * 2 + 1)" using assms by simp
  with summable_Leibniz(2)[OF zeroseq_arctan_series[OF ax] monoseq_arctan_series[OF ax]]
  have "arctan x \<in> {(\<Sum>k<2 * n. (- 1) ^ k * (1 / real (k * 2 + 1) * x ^ (k * 2 + 1))) ..
                   (\<Sum>k<2 * n + 1. (- 1) ^ k * (1 / real (k * 2 + 1) * x ^ (k * 2 + 1)))}"
    unfolding arctan_series[OF ax] by blast
  then show "(\<Sum>k<2 * n. (- 1) ^ k * (1 / real (k * 2 + 1) * x ^ (k * 2 + 1))) \<le> arctan x"
    and "arctan x \<le> (\<Sum>k<2 * n + 1. (- 1) ^ k * (1 / real (k * 2 + 1) * x ^ (k * 2 + 1)))"
    by simp_all
qed

lemma pi_bounds: "13176794 / 2 ^ 22 < pi" "pi < 13176795 / 2 ^ 22"
proof -
  have m: "pi = 16 * arctan (1 / 5) - 4 * arctan (1 / 239)"
    using machin by simp
  have l5: "(\<Sum>k<2 * 3. (- 1) ^ k * (1 / real (k * 2 + 1) * (1 / 5) ^ (k * 2 + 1))) \<le> arctan (1 / 5)"
    by (rule arctan_partial_sums) simp_all
  have u5: "arctan (1 / 5) \<le> (\<Sum>k<2 * 3 + 1. (- 1) ^ k * (1 / real (k * 2 + 1) * (1 / 5) ^ (k * 2 + 1)))"
    by (rule arctan_partial_sums) simp_all
  have l239: "(\<Sum>k<2 * 1. (- 1) ^ k * (1 / real (k * 2 + 1) * (1 / 239) ^ (k * 2 + 1))) \<le> arctan (1 / 239)"
    by (rule arctan_partial_sums) simp_all
  have u239: "arctan (1 / 239) \<le> (\<Sum>k<2 * 1 + 1. (- 1) ^ k * (1 / real (k * 2 + 1) * (1 / 239) ^ (k * 2 + 1)))"
    by (rule arctan_partial_sums) simp_all
  show "13176794 / 2 ^ 22 < pi"
    unfolding m using l5 u239 by (simp add: eval_nat_numeral)
  show "pi < 13176795 / 2 ^ 22"
    unfolding m using u5 l239 by (simp add: eval_nat_numeral)
qed

lemma binary32_near_2pi:
  assumes "fp_of_rat binary32 s = Finite a"
  shows "a \<le> below_2pi \<or> above_2pi \<le> a"
proof -
  consider "s < 0" | "0 \<le> s" "s < 4" | "4 \<le> s" "s < 8" | "8 \<le> s" by linarith
  then show ?thesis
  proof cases
    case 1
    then show ?thesis
      using fp_of_rat_neg[of s binary32] assms by (auto simp: below_2pi_def)
  next
    case 2
    then show ?thesis
      using fp_of_rat_bounded[of s 4 binary32] assms fix_vals(6) prec32
      by (auto simp: below_2pi_def)
  next
    case 3
    define k where "k = rne (s * 2 ^ 21)"
    have a: "a = of_int k / 2 ^ 21"
      using binary32_grid[OF 3] assms by (simp add: k_def)
    have "k \<le> 13176794 \<or> 13176795 \<le> k" by linarith
    then have "rat_of_int k \<le> 13176794 \<or> 13176795 \<le> rat_of_int k"
      by (metis of_int_le_iff of_int_numeral)
    then show ?thesis
      by (auto simp: a below_2pi_def above_2pi_def divide_right_mono)
  next
    case 4
    then show ?thesis
      using fp_of_rat_lower[of 8 s binary32] assms fix_vals(7) prec32
      by (auto simp: above_2pi_def)
  qed
qed

lemma advance_angle_range:
  assumes "0 \<le> a" "a \<le> below_2pi" "0 \<le> d" "d \<le> 6"
  shows "\<exists>a'. advance_angle (Finite a) (Finite d) = Finite a' \<and> 0 \<le> a' \<and> a' \<le> below_2pi"
proof -
  obtain d' where d': "fp_of_rat binary64 d = Finite d'" "0 \<le> d'" "d' \<le> 6"
    using fp_of_rat_bounded[OF assms(3,4) fix_vals(1) prec64] by blast
  have "fp_of_rat binary64 below_2pi = Finite below_2pi"
    using fix_vals(8) by (simp add: below_2pi_def)
  then obtain c where c: "fp_of_rat binary64 a = Finite c" "0 \<le> c" "c \<le> below_2pi"
    using fp_of_rat_bounded[OF assms(1,2) _ prec64] by blast
  have "c + d' \<le> 25 / 2" using c(3) d'(3) by (simp add: below_2pi_def)
  moreover have "0 \<le> c + d'" using c(2) d'(2) by simp
  ultimately obtain s where s: "fp_of_rat binary64 (c + d') = Finite s" "0 \<le> s" "s \<le> 25 / 2"
    using fp_of_rat_bounded[OF _ _ fix_vals(2) prec64] by blast
  obtain a1 where a1: "fp_of_rat binary32 s = Finite a1" "0 \<le> a1" "a1 \<le> 25 / 2"
    using fp_of_rat_bounded[OF s(2,3) fix_vals(3) prec32] by blast
  have add: "float_add_assign (Finite a) (Finite d') = Finite a1"
    by (simp add: float_add_assign_def c(1) s a1)
  have conv: "fp_of_rat binary64 a1 = Finite a1"
    using binary32_is_binary64[of s] by (simp add: a1(1))
  define T where "T = two_pi_double"
  have T: "TWO_M_PI = Finite T" by (simp add: TWO_M_PI_value T_def)
  show ?thesis
  proof (cases "T < a1")
    case True
    then have "0 \<le> a1 - T" "a1 - T \<le> 25 / 4"
      using a1(3) by (simp_all add: T_def two_pi_double_def)
    then obtain t where t: "fp_of_rat binary64 (a1 - T) = Finite t" "0 \<le> t" "t \<le> 25 / 4"
      using fp_of_rat_bounded[OF _ _ fix_vals(4) prec64] by blast
    obtain a2 where a2: "fp_of_rat binary32 t = Finite a2" "0 \<le> a2" "a2 \<le> 25 / 4"
      using fp_of_rat_bounded[OF t(2,3) fix_vals(5) prec32] by blast
    have "advance_angle (Finite a) (Finite d) = Finite a2"
      using True
      by (simp add: advance_angle_def d'(1) add conv T float_sub_assign_def fp_sub_def t a2)
    then show ?thesis using a2 by (simp add: below_2pi_def)
  next
    case False
    then have "\<not> above_2pi \<le> a1" by (simp add: above_2pi_def T_def two_pi_double_def)
    then have "a1 \<le> below_2pi" using binary32_near_2pi[OF a1(1)] by simp
    moreover have "advance_angle (Finite a) (Finite d) = Finite a1"
      using False by (simp add: advance_angle_def d'(1) add conv T)
    ultimately show ?thesis using a1(2) by simp
  qed
qed

section \<open>Properties of \<open>Update\<close> and of the loop\<close>

lemma handle_event_cases:
  "handle_event s e = (if is_quit_event e then s\<lparr>isRunning := False\<rparr> else s)"
  by (simp add: handle_event_def is_quit_event_def)

lemma poll_events_stopped:
  "poll_events (s\<lparr>isRunning := False\<rparr>) q = (s\<lparr>isRunning := False\<rparr>, [])"
  by (induction q) (simp_all add: handle_event_def)

lemma poll_events_result:
  "poll_events s q = (if list_ex is_quit_event q then s\<lparr>isRunning := False\<rparr> else s, [])"
proof (induction q arbitrary: s)
  case Nil
  show ?case by simp
next
  case (Cons e q)
  show ?case
  proof (cases "is_quit_event e")
    case True
    then show ?thesis
      by (simp add: handle_event_cases poll_events_stopped)
  next
    case False
    then show ?thesis
      by (simp add: handle_event_cases Cons.IH)
  qed
qed

lemma Update_result:
  "Update s q dt =
     ((if list_ex is_quit_event q then s\<lparr>isRunning := False\<rparr> else s)
        \<lparr>angle := advance_angle (angle s) dt\<rparr>, [])"
  by (simp add: Update_def poll_events_result)

lemma body_update:
  assumes "fp_gt (acc_next pf st) secondsPerUpdate"
  shows "GameLoop_body pf st =
    \<lparr>scene = fst (Update (scene st) (polled pf st) secondsPerUpdate),
     previousTickCount = u64_to_double (perf_counter pf (Suc (iteration st))),
     accumulatedTime = fp_sub binary64 (acc_next pf st) secondsPerUpdate,
     iteration = Suc (iteration st),
     queue = [],
     calls = calls st @ [[CallUpdate, CallDraw]],
     frames = frames st @ [Draw (fst (Update (scene st) (polled pf st) secondsPerUpdate))]\<rparr>"
  using assms
  by (simp add: GameLoop_body_def Let_def acc_next_def polled_def Update_result)

lemma body_no_update:
  assumes "\<not> fp_gt (acc_next pf st) secondsPerUpdate"
  shows "GameLoop_body pf st =
    \<lparr>scene = scene st,
     previousTickCount = u64_to_double (perf_counter pf (Suc (iteration st))),
     accumulatedTime = acc_next pf st,
     iteration = Suc (iteration st),
     queue = polled pf st,
     calls = calls st @ [[CallDraw]],
     frames = frames st @ [Draw (scene st)]\<rparr>"
  using assms
  by (simp add: GameLoop_body_def Let_def acc_next_def polled_def)

lemma body_calls:
  "calls (GameLoop_body pf st) =
     calls st @ [if fp_gt (acc_next pf st) secondsPerUpdate then [CallUpdate, CallDraw] else [CallDraw]]"
  by (simp add: body_update body_no_update)

lemma body_frames: "length (frames (GameLoop_body pf st)) = Suc (length (frames st))"
  by (cases "fp_gt (acc_next pf st) secondsPerUpdate") (simp_all add: body_update body_no_update)

lemma body_iteration: "iteration (GameLoop_body pf st) = Suc (iteration st)"
  by (cases "fp_gt (acc_next pf st) secondsPerUpdate") (simp_all add: body_update body_no_update)

lemma iterate_Suc_right:
  "GameLoop_iterate pf (Suc n) st =
     (if isRunning (scene (GameLoop_iterate pf n st))
      then GameLoop_body pf (GameLoop_iterate pf n st) else GameLoop_iterate pf n st)"
proof (induction n arbitrary: st)
  case 0
  show ?case by simp
next
  case (Suc n)
  show ?case
  proof (cases "isRunning (scene st)")
    case True
    then show ?thesis using Suc.IH[of "GameLoop_body pf st"] by simp
  next
    case False
    then show ?thesis by simp
  qed
qed

lemma iterate_stopped:
  "\<not> isRunning (scene st) \<Longrightarrow> GameLoop_iterate pf n st = st"
  by (cases n) simp_all


lemma iterate_running:
  assumes "isRunning (scene (GameLoop_iterate pf n st))"
  shows "iteration (GameLoop_iterate pf n st) = iteration st + n
       \<and> length (frames (GameLoop_iterate pf n st)) = length (frames st) + n
       \<and> length (calls (GameLoop_iterate pf n st)) = length (calls st) + n"
  using assms
proof (induction n arbitrary: st)
  case 0
  show ?case by simp
next
  case (Suc n)
  have r: "isRunning (scene st)"
    using Suc.prems by (auto simp: iterate_stopped intro: ccontr)
  with Suc.prems have "isRunning (scene (GameLoop_iterate pf n (GameLoop_body pf st)))" by simp
  from Suc.IH[OF this] r show ?case
    by (simp add: body_iteration body_frames body_calls)
qed

lemma init_fields:
  "scene (GameLoop_init pf s) = s"
  "previousTickCount (GameLoop_init pf s) = u64_to_double (perf_counter pf 0)"
  "accumulatedTime (GameLoop_init pf s) = Finite 0"
  "iteration (GameLoop_init pf s) = 0"
  "queue (GameLoop_init pf s) = []"
  "calls (GameLoop_init pf s) = []"
  "frames (GameLoop_init pf s) = []"
  by (simp_all add: GameLoop_init_def)

section \<open>The frame and the events of \<open>Update\<close>\<close>

lemmas ev_defs = quit_event_def key_q_event_def key_a_event_def mouse_event_def
  is_quit_event_def SDL_QUIT_def SDL_KEYDOWN_def SDLK_q_def

text \<open>
  Claim C9.  Every \<open>Update\<close> call changes at most the fields \<open>isRunning\<close> and \<open>angle\<close> of
  the scene: \<open>program\<close>, \<open>vertexArray\<close>, \<open>vertexCount\<close> and \<open>angleShaderParameter\<close> are
  the same after the call as before, whatever events are pending and whatever the time
  step is.
\<close>

theorem Update_frame:
  "program (fst (Update s q dt)) = program s \<and>
   vertexArray (fst (Update s q dt)) = vertexArray s \<and>
   vertexCount (fst (Update s q dt)) = vertexCount s \<and>
   angleShaderParameter (fst (Update s q dt)) = angleShaderParameter s"
  by (simp add: Update_result)

theorem Update_frame_witness:
  "program (fst (Update main_scene [key_a_event, quit_event] secondsPerUpdate)) = 3 \<and>
   vertexArray (fst (Update main_scene [key_a_event, quit_event] secondsPerUpdate)) = 1 \<and>
   vertexCount (fst (Update main_scene [key_a_event, quit_event] secondsPerUpdate)) = 4 \<and>
   angleShaderParameter (fst (Update main_scene [key_a_event, quit_event] secondsPerUpdate)) = 0"
  using Update_frame[of main_scene "[key_a_event, quit_event]" secondsPerUpdate]
  by (simp add: main_scene_def)

text \<open>
  Claim C10.  \<open>isRunning\<close> only ever goes from true to false: a scene that the
  constructor returns has \<open>isRunning = true\<close>, and if \<open>isRunning\<close> is false before an
  \<open>Update\<close> call, it is false after it, whatever events are pending.
\<close>

theorem isRunning_monotone:
  "(Scene_ctor p va vs vsz ap = Inr sc \<longrightarrow> isRunning sc) \<and>
   (\<not> isRunning s \<longrightarrow> \<not> isRunning (fst (Update s q dt)))"
  by (auto simp: Scene_ctor_def Update_result split: if_splits)

theorem isRunning_monotone_witness:
  "Scene_ctor 3 1 main_vertices main_vertexSize 0 = Inr main_scene \<and> isRunning main_scene \<and>
   \<not> isRunning (main_scene\<lparr>isRunning := False\<rparr>) \<and>
   \<not> isRunning (fst (Update (main_scene\<lparr>isRunning := False\<rparr>) [key_a_event, mouse_event]
                      secondsPerUpdate))"
  using isRunning_monotone[of 3 1 main_vertices main_vertexSize 0 main_scene
      "main_scene\<lparr>isRunning := False\<rparr>" "[key_a_event, mouse_event]" secondsPerUpdate]
  by (simp add: Scene_ctor_def main_scene_def main_vertices_def main_vertexSize_def)

text \<open>
  Claim C6.  Every \<open>Update\<close> call drains the queue of pending events.  A quit request
  and a key press of the quit key set \<open>isRunning\<close> to false; every other event leaves the
  scene as it is.  So the event phase of \<open>Update\<close> returns the scene unchanged when no
  quit-type event is pending, and with \<open>isRunning = false\<close> otherwise.
\<close>

theorem Update_drains_events:
  "snd (Update s q dt) = [] \<and>
   fst (poll_events s q) = (if list_ex is_quit_event q then s\<lparr>isRunning := False\<rparr> else s) \<and>
   isRunning (fst (Update s q dt)) = (isRunning s \<and> \<not> list_ex is_quit_event q) \<and>
   handle_event s e = (if is_quit_event e then s\<lparr>isRunning := False\<rparr> else s)"
  by (simp add: Update_result poll_events_result handle_event_cases)

theorem Update_drains_events_witness:
  "snd (Update main_scene [mouse_event, key_a_event] secondsPerUpdate) = [] \<and>
   fst (poll_events main_scene [mouse_event, key_a_event]) = main_scene \<and>
   isRunning (fst (Update main_scene [mouse_event, key_a_event] secondsPerUpdate)) \<and>
   \<not> isRunning (fst (Update main_scene [mouse_event, key_q_event, key_a_event] secondsPerUpdate)) \<and>
   handle_event main_scene quit_event = main_scene\<lparr>isRunning := False\<rparr> \<and>
   handle_event main_scene key_q_event = main_scene\<lparr>isRunning := False\<rparr> \<and>
   handle_event main_scene key_a_event = main_scene \<and>
   handle_event main_scene mouse_event = main_scene"
  using Update_drains_events[of main_scene "[mouse_event, key_a_event]" secondsPerUpdate quit_event]
    Update_drains_events[of main_scene "[mouse_event, key_q_event, key_a_event]" secondsPerUpdate
      key_q_event]
    Update_drains_events[of main_scene "[]" secondsPerUpdate key_a_event]
    Update_drains_events[of main_scene "[]" secondsPerUpdate mouse_event]
  by (simp add: ev_defs main_scene_def)

section \<open>The calls of an iteration\<close>

lemma body_calls_count:
  "\<exists>c. calls (GameLoop_body pf st) = calls st @ [c] \<and>
       count_list c CallUpdate \<le> 1 \<and> count_list c CallDraw = 1"
  by (simp add: body_calls)

lemma iterate_calls_count:
  "list_all (\<lambda>c. count_list c CallUpdate \<le> 1 \<and> count_list c CallDraw = 1) (calls st) \<Longrightarrow>
   list_all (\<lambda>c. count_list c CallUpdate \<le> 1 \<and> count_list c CallDraw = 1)
     (calls (GameLoop_iterate pf n st))"
proof (induction n arbitrary: st)
  case 0
  then show ?case by simp
next
  case (Suc n)
  have "list_all (\<lambda>c. count_list c CallUpdate \<le> 1 \<and> count_list c CallDraw = 1)
     (calls (GameLoop_body pf st))"
    using Suc.prems by (simp add: body_calls)
  from Suc.IH[OF this] Suc.prems show ?case by simp
qed

lemma body_scene:
  "scene (GameLoop_body pf st) =
     (if fp_gt (acc_next pf st) secondsPerUpdate
      then fst (Update (scene st) (polled pf st) secondsPerUpdate) else scene st)"
  by (simp add: body_update body_no_update)

lemma body_queue:
  "queue (GameLoop_body pf st) =
     (if fp_gt (acc_next pf st) secondsPerUpdate
      then snd (Update (scene st) (polled pf st) secondsPerUpdate) else polled pf st)"
  by (simp add: body_update body_no_update Update_result)

lemma body_frames_Draw:
  "frames (GameLoop_body pf st) = frames st @ [Draw (scene (GameLoop_body pf st))]"
  by (cases "fp_gt (acc_next pf st) secondsPerUpdate") (simp_all add: body_update body_no_update)

lemma iterate_frames_Draw:
  "frames (GameLoop_iterate pf (Suc n) st) =
     (if isRunning (scene (GameLoop_iterate pf n st))
      then frames (GameLoop_iterate pf n st) @ [Draw (scene (GameLoop_iterate pf (Suc n) st))]
      else frames (GameLoop_iterate pf n st))"
  using iterate_Suc_right[of pf n st] body_frames_Draw[of pf "GameLoop_iterate pf n st"]
  by (simp del: GameLoop_iterate.simps)

text \<open>
  Claim C2.  In every iteration of \<open>GameLoop\<close>, however large \<open>accumulatedTime\<close> is,
  \<open>Update\<close> is called at most once and \<open>Draw\<close> exactly once, whether or not \<open>Update\<close>
  ran.  This holds for the iterations of a run of the loop and for the loop body in any
  state.  The calls are the calls that the body makes: when the test of the iteration
  holds, the scene after the iteration is the scene that the one \<open>Update\<close> call returns
  for the polled events, and the queue is what that call leaves; otherwise scene and
  events are as before.  In both cases the iteration appends one frame, the one that
  \<open>Draw\<close> produces for the scene at the end of the iteration; so does every iteration
  of a run.
\<close>

theorem GameLoop_one_Update_one_Draw:
  "list_all (\<lambda>c. count_list c CallUpdate \<le> 1 \<and> count_list c CallDraw = 1)
     (calls (GameLoop_iterate pf n (GameLoop_init pf s))) \<and>
   (\<exists>c. calls (GameLoop_body pf st) = calls st @ [c] \<and>
        count_list c CallUpdate \<le> 1 \<and> count_list c CallDraw = 1) \<and>
   length (frames (GameLoop_body pf st)) = length (frames st) + 1 \<and>
   calls (GameLoop_body pf st) =
     calls st @ [if fp_gt (acc_next pf st) secondsPerUpdate
                 then [CallUpdate, CallDraw] else [CallDraw]] \<and>
   scene (GameLoop_body pf st) =
     (if fp_gt (acc_next pf st) secondsPerUpdate
      then fst (Update (scene st) (polled pf st) secondsPerUpdate) else scene st) \<and>
   queue (GameLoop_body pf st) =
     (if fp_gt (acc_next pf st) secondsPerUpdate
      then snd (Update (scene st) (polled pf st) secondsPerUpdate) else polled pf st) \<and>
   frames (GameLoop_body pf st) = frames st @ [Draw (scene (GameLoop_body pf st))] \<and>
   frames (GameLoop_iterate pf (Suc n) (GameLoop_init pf s)) =
     (if isRunning (scene (GameLoop_iterate pf n (GameLoop_init pf s)))
      then frames (GameLoop_iterate pf n (GameLoop_init pf s)) @
           [Draw (scene (GameLoop_iterate pf (Suc n) (GameLoop_init pf s)))]
      else frames (GameLoop_iterate pf n (GameLoop_init pf s)))"
proof -
  have "list_all (\<lambda>c. count_list c CallUpdate \<le> 1 \<and> count_list c CallDraw = 1)
     (calls (GameLoop_iterate pf n (GameLoop_init pf s)))"
    using iterate_calls_count[of "GameLoop_init pf s" pf n] by (simp add: init_fields)
  then show ?thesis
    using body_calls_count[of pf st] body_frames[of pf st] body_calls[of pf st]
      body_scene[of pf st] body_queue[of pf st] body_frames_Draw[of pf st]
      iterate_frames_Draw[of pf n "GameLoop_init pf s"]
    by (simp only: Suc_eq_plus1 simp_thms)
qed

theorem GameLoop_one_Update_one_Draw_witness:
  "calls (GameLoop_body pf_stall (GameLoop_init pf_stall main_scene)) = [[CallUpdate, CallDraw]] \<and>
   fp_gt (accumulatedTime (GameLoop_body pf_stall (GameLoop_init pf_stall main_scene)))
     secondsPerUpdate \<and>
   length (frames (GameLoop_body pf_stall (GameLoop_init pf_stall main_scene))) = 1 \<and>
   scene (GameLoop_body pf_stall (GameLoop_init pf_stall main_scene)) =
     main_scene\<lparr>angle := Finite (8947849 / 2 ^ 29)\<rparr> \<and>
   frames (GameLoop_body pf_stall (GameLoop_init pf_stall main_scene)) =
     [Draw (main_scene\<lparr>angle := Finite (8947849 / 2 ^ 29)\<rparr>)]"
proof -
  let ?i = "GameLoop_init pf_stall main_scene"
  have acc: "acc_next pf_stall ?i = Finite 1000"
    by (simp add: acc_next_def init_fields pf_stall_def elapsed_def ticksPerSecond_def
        u64_to_double_def fp_eval)
  have gt: "fp_gt (acc_next pf_stall ?i) secondsPerUpdate"
    by (simp add: acc fp_eval)
  have gt': "fp_gt (fp_sub binary64 (Finite 1000) secondsPerUpdate) secondsPerUpdate"
    by (simp add: fp_eval)
  have ang: "advance_angle (Finite 0) secondsPerUpdate = Finite (8947849 / 2 ^ 29)"
    by (simp add: fp_eval split del: if_split)
  have upd: "fst (Update main_scene (polled pf_stall ?i) secondsPerUpdate) =
      main_scene\<lparr>angle := Finite (8947849 / 2 ^ 29)\<rparr>"
    using ang by (simp add: Update_result polled_def init_fields pf_stall_def main_scene_def)
  have "accumulatedTime (GameLoop_body pf_stall ?i) =
      fp_sub binary64 (Finite 1000) secondsPerUpdate"
    using gt by (simp add: body_update acc)
  then show ?thesis
    using GameLoop_one_Update_one_Draw[of pf_stall 0 main_scene ?i] gt gt' upd
    by (simp add: init_fields)
qed

section \<open>The vertex count\<close>

text \<open>
  Claim C8, as the code has it.  The constructor sets \<open>vertexCount\<close> to the quotient of
  the number of floats by \<open>vertexSize\<close>, in unsigned integer division: for the quad of
  \<open>main\<close>, eight floats and \<open>vertexSize = 2\<close>, it is \<open>4\<close>.  The constructor has no check
  of divisibility; a remainder is dropped.
\<close>

theorem Scene_ctor_vertexCount:
  "(vsz \<noteq> 0 \<and> length vs < 2 ^ 64 \<longrightarrow>
      (\<exists>sc. Scene_ctor p va vs vsz ap = Inr sc \<and>
            unat (vertexCount sc) = length vs div unat vsz)) \<and>
   (\<exists>sc. Scene_ctor p va main_vertices main_vertexSize ap = Inr sc \<and> vertexCount sc = 4)"
proof -
  have "unat ((of_nat (length vs) :: 64 word) div vsz) = length vs div unat vsz"
    if "length vs < 2 ^ 64"
    using that by (simp add: unat_div unat_of_nat)
  moreover have "(of_nat (length main_vertices) :: 64 word) div main_vertexSize = 4"
    by (simp add: main_vertices_def main_vertexSize_def)
  ultimately show ?thesis
    by (simp add: Scene_ctor_def main_vertexSize_def)
qed

theorem Scene_ctor_vertexCount_witness:
  "(2 :: 64 word) \<noteq> 0 \<and> length (take 6 main_vertices) < 2 ^ 64 \<and>
   (\<exists>sc. Scene_ctor 3 1 (take 6 main_vertices) 2 0 = Inr sc \<and>
         unat (vertexCount sc) = length (take 6 main_vertices) div unat (2 :: 64 word))"
  using Scene_ctor_vertexCount[of 2 "take 6 main_vertices" 3 1 0]
  by (simp add: main_vertices_def)

text \<open>
  Claim C8 as stated says that a float count that \<open>vertexSize\<close> does not divide is
  rejected.  Seven floats with \<open>vertexSize = 2\<close> are accepted, and give three vertices.
\<close>

theorem Scene_ctor_accepts_partial_vertex:
  "\<not> (2 :: nat) dvd length (take 7 main_vertices) \<and>
   Scene_ctor 3 1 (take 7 main_vertices) main_vertexSize 0 =
     Inr \<lparr>isRunning = True, program = 3, vertexArray = 1, vertexCount = 3,
          angleShaderParameter = 0, angle = Finite 0\<rparr>"
  by (simp add: Scene_ctor_def main_vertices_def main_vertexSize_def)

section \<open>The loop under a clock that advances by exactly one time step\<close>

lemma clock_exact_iff:
  "clock_exact pf n \<longleftrightarrow>
     (\<forall>k<n. elapsed pf (u64_to_double (perf_counter pf k)) k = secondsPerUpdate)"
  by (auto simp: clock_exact_def list_all_iff)

lemma running_before:
  "isRunning (scene (GameLoop_iterate pf (Suc n) st)) \<Longrightarrow>
   isRunning (scene (GameLoop_iterate pf n st))"
  using iterate_Suc_right[of pf n st]
  by (auto simp del: GameLoop_iterate.simps split: if_splits)

lemma replicate_pred_snoc:
  "0 < n \<Longrightarrow> replicate (n - Suc 0) x @ [x] = replicate n x"
  by (cases n) (simp_all add: replicate_append_same)

lemma spu_arith:
  "fp_add binary64 (Finite 0) secondsPerUpdate = secondsPerUpdate"
  "\<not> fp_gt secondsPerUpdate secondsPerUpdate"
  "fp_gt (fp_add binary64 secondsPerUpdate secondsPerUpdate) secondsPerUpdate"
  "fp_sub binary64 (fp_add binary64 secondsPerUpdate secondsPerUpdate) secondsPerUpdate
     = secondsPerUpdate"
  by (simp_all add: fp_eval)

lemma exact_clock_invariant:
  assumes "clock_exact pf n" "n = 0 \<or> isRunning (scene (GameLoop_iterate pf (n - 1) (GameLoop_init pf s)))"
  shows "iteration (GameLoop_iterate pf n (GameLoop_init pf s)) = n \<and>
         previousTickCount (GameLoop_iterate pf n (GameLoop_init pf s)) =
           u64_to_double (perf_counter pf n) \<and>
         accumulatedTime (GameLoop_iterate pf n (GameLoop_init pf s)) =
           (if n = 0 then Finite 0 else secondsPerUpdate) \<and>
         calls (GameLoop_iterate pf n (GameLoop_init pf s)) =
           (if n = 0 then [] else [CallDraw] # replicate (n - 1) [CallUpdate, CallDraw])"
  using assms
proof (induction n)
  case 0
  show ?case by (simp add: init_fields)
next
  case (Suc n)
  let ?st = "GameLoop_iterate pf n (GameLoop_init pf s)"
  have run: "isRunning (scene ?st)" using Suc.prems(2) by simp
  have ce: "clock_exact pf n" and el: "elapsed pf (u64_to_double (perf_counter pf n)) n = secondsPerUpdate"
    using Suc.prems(1) by (simp_all add: clock_exact_iff)
  have before: "n = 0 \<or> isRunning (scene (GameLoop_iterate pf (n - 1) (GameLoop_init pf s)))"
  proof (cases n)
    case 0
    then show ?thesis by simp
  next
    case (Suc m)
    then show ?thesis using run running_before[of pf m "GameLoop_init pf s"] by simp
  qed
  note inv = Suc.IH[OF ce before]
  have step: "GameLoop_iterate pf (Suc n) (GameLoop_init pf s) = GameLoop_body pf ?st"
    using run iterate_Suc_right[of pf n "GameLoop_init pf s"]
    by (simp del: GameLoop_iterate.simps)
  have acc: "acc_next pf ?st =
      fp_add binary64 (if n = 0 then Finite 0 else secondsPerUpdate) secondsPerUpdate"
    using inv el by (simp add: acc_next_def)
  show ?case
  proof (cases "n = 0")
    case True
    then have "\<not> fp_gt (acc_next pf ?st) secondsPerUpdate"
      using acc by (simp add: spu_arith)
    from body_no_update[OF this] show ?thesis
      unfolding step using True inv acc by (simp add: spu_arith)
  next
    case False
    then have "fp_gt (acc_next pf ?st) secondsPerUpdate"
      using acc by (simp add: spu_arith)
    from body_update[OF this] show ?thesis
      unfolding step using False inv acc
      by (simp add: spu_arith replicate_pred_snoc)
  qed
qed

lemma iterate_numeral:
  "GameLoop_iterate pf (numeral k) st =
     (if isRunning (scene st) then GameLoop_iterate pf (pred_numeral k) (GameLoop_body pf st)
      else st)"
  by (simp add: numeral_eq_Suc)

lemmas loop_eval = iterate_numeral GameLoop_body_def GameLoop_init_def Let_def Update_result
  elapsed_def ticksPerSecond_def u64_to_double_def polled_def acc_next_def

lemma iter_angle_Suc_right:
  "iter_angle (Suc n) a d = advance_angle (iter_angle n a d) d"
  by (induction n arbitrary: a) simp_all

lemma exact_clock_angle:
  assumes "clock_exact pf n"
    "n = 0 \<or> isRunning (scene (GameLoop_iterate pf (n - 1) (GameLoop_init pf s)))"
  shows "angle (scene (GameLoop_iterate pf n (GameLoop_init pf s))) =
           iter_angle (n - 1) (angle s) secondsPerUpdate"
  using assms
proof (induction n)
  case 0
  show ?case by (simp add: init_fields)
next
  case (Suc n)
  let ?st = "GameLoop_iterate pf n (GameLoop_init pf s)"
  have run: "isRunning (scene ?st)" using Suc.prems(2) by simp
  have ce: "clock_exact pf n"
    and el: "elapsed pf (u64_to_double (perf_counter pf n)) n = secondsPerUpdate"
    using Suc.prems(1) by (simp_all add: clock_exact_iff)
  have before: "n = 0 \<or> isRunning (scene (GameLoop_iterate pf (n - 1) (GameLoop_init pf s)))"
  proof (cases n)
    case 0
    then show ?thesis by simp
  next
    case (Suc m)
    then show ?thesis using run running_before[of pf m "GameLoop_init pf s"] by simp
  qed
  note inv = exact_clock_invariant[OF ce before]
  note ih = Suc.IH[OF ce before]
  have step: "GameLoop_iterate pf (Suc n) (GameLoop_init pf s) = GameLoop_body pf ?st"
    using run iterate_Suc_right[of pf n "GameLoop_init pf s"]
    by (simp del: GameLoop_iterate.simps)
  have acc: "acc_next pf ?st =
      fp_add binary64 (if n = 0 then Finite 0 else secondsPerUpdate) secondsPerUpdate"
    using inv el by (simp add: acc_next_def)
  show ?case
  proof (cases "n = 0")
    case True
    then have "\<not> fp_gt (acc_next pf ?st) secondsPerUpdate"
      using acc by (simp add: spu_arith)
    then show ?thesis
      unfolding step using True ih by (simp add: body_scene)
  next
    case False
    then obtain m where m: "n = Suc m" by (cases n) simp_all
    from False have "fp_gt (acc_next pf ?st) secondsPerUpdate"
      using acc by (simp add: spu_arith)
    then show ?thesis
      unfolding step using ih
      by (simp add: body_scene Update_result m iter_angle_Suc_right
          del: iter_angle.simps)
  qed
qed

text \<open>
  Claim C1, as the code has it.  Let the clock advance by exactly \<open>secondsPerUpdate\<close>
  between consecutive reads, for the first \<open>n\<close> iterations, and let the loop still be
  running at the top of iteration \<open>n\<close>.  Then the first iteration calls \<open>Draw\<close> once and
  does not call \<open>Update\<close>: after the addition \<open>accumulatedTime\<close> equals
  \<open>secondsPerUpdate\<close>, and the test is the strict \<open>accumulatedTime > secondsPerUpdate\<close>.
  Every later iteration calls \<open>Update\<close> exactly once and then \<open>Draw\<close> exactly once.  So
  after \<open>n\<close> iterations the angle is the angle after \<open>n - 1\<close> steps of
  \<open>secondsPerUpdate\<close>, \<open>n\<close> frames are drawn, and the last frame is the one that \<open>Draw\<close>
  produces for the scene at the end of iteration \<open>n\<close>.
\<close>

theorem exact_clock_calls:
  assumes "clock_exact pf n" "0 < n"
    and "isRunning (scene (GameLoop_iterate pf (n - 1) (GameLoop_init pf s)))"
  shows "calls (GameLoop_iterate pf n (GameLoop_init pf s)) =
           [CallDraw] # replicate (n - 1) [CallUpdate, CallDraw] \<and>
         angle (scene (GameLoop_iterate pf n (GameLoop_init pf s))) =
           iter_angle (n - 1) (angle s) secondsPerUpdate \<and>
         length (frames (GameLoop_iterate pf n (GameLoop_init pf s))) = n \<and>
         last (frames (GameLoop_iterate pf n (GameLoop_init pf s))) =
           Draw (scene (GameLoop_iterate pf n (GameLoop_init pf s)))"
proof -
  have c: "calls (GameLoop_iterate pf n (GameLoop_init pf s)) =
           [CallDraw] # replicate (n - 1) [CallUpdate, CallDraw]"
    using exact_clock_invariant[of pf n s] assms by simp
  have a: "angle (scene (GameLoop_iterate pf n (GameLoop_init pf s))) =
           iter_angle (n - 1) (angle s) secondsPerUpdate"
    using exact_clock_angle[of pf n s] assms by simp
  obtain m where m: "n = Suc m" using assms(2) by (cases n) simp_all
  let ?st = "GameLoop_iterate pf m (GameLoop_init pf s)"
  have run: "isRunning (scene ?st)" using assms(3) m by simp
  have step: "GameLoop_iterate pf n (GameLoop_init pf s) = GameLoop_body pf ?st"
    unfolding m using run iterate_Suc_right[of pf m "GameLoop_init pf s"]
    by (simp del: GameLoop_iterate.simps)
  have l: "length (frames (GameLoop_iterate pf n (GameLoop_init pf s))) = n"
    unfolding step using iterate_running[OF run] by (simp add: body_frames init_fields m)
  have d: "last (frames (GameLoop_iterate pf n (GameLoop_init pf s))) =
           Draw (scene (GameLoop_iterate pf n (GameLoop_init pf s)))"
    unfolding step using body_frames_Draw[of pf ?st] by simp
  show ?thesis using c a l d by (simp only: simp_thms)
qed

theorem exact_clock_calls_witness:
  "clock_exact pf_60Hz 3 \<and> (0 :: nat) < 3 \<and>
   isRunning (scene (GameLoop_iterate pf_60Hz (3 - 1) (GameLoop_init pf_60Hz main_scene))) \<and>
   calls (GameLoop_iterate pf_60Hz 3 (GameLoop_init pf_60Hz main_scene)) =
     [[CallDraw], [CallUpdate, CallDraw], [CallUpdate, CallDraw]] \<and>
   length (frames (GameLoop_iterate pf_60Hz 3 (GameLoop_init pf_60Hz main_scene))) = 3"
proof -
  have ce: "clock_exact pf_60Hz 3"
    by (simp add: clock_exact_def upt_rec elapsed_def pf_60Hz_def
        ticksPerSecond_def u64_to_double_def fp_eval)
  have run: "isRunning (scene (GameLoop_iterate pf_60Hz (3 - 1) (GameLoop_init pf_60Hz main_scene)))"
    by (simp add: loop_eval pf_60Hz_def main_scene_def fp_eval)
  have "calls (GameLoop_iterate pf_60Hz 3 (GameLoop_init pf_60Hz main_scene)) =
      [CallDraw] # replicate (3 - 1) [CallUpdate, CallDraw]"
    and "length (frames (GameLoop_iterate pf_60Hz 3 (GameLoop_init pf_60Hz main_scene))) = 3"
    using exact_clock_calls[OF ce _ run] by simp_all
  then show ?thesis
    using ce run by (simp add: eval_nat_numeral)
qed

text \<open>
  Claim C1 as stated says that every iteration has exactly one \<open>Update\<close> call.  With a
  60 Hz counter that advances by one tick between reads, the clock advances by exactly
  \<open>secondsPerUpdate\<close>, and the first iteration has no \<open>Update\<close> call.
\<close>

theorem exact_clock_first_iteration_no_Update:
  "clock_exact pf_60Hz 2 \<and>
   calls (GameLoop_iterate pf_60Hz 2 (GameLoop_init pf_60Hz main_scene)) =
     [[CallDraw], [CallUpdate, CallDraw]] \<and>
   count_list (calls (GameLoop_iterate pf_60Hz 2 (GameLoop_init pf_60Hz main_scene)) ! 0)
     CallUpdate \<noteq> 1"
  by (simp add: clock_exact_def upt_rec loop_eval pf_60Hz_def main_scene_def fp_eval)

section \<open>The end of the loop\<close>




section \<open>The angle\<close>

lemma Update_seq_angle:
  "angle (Update_seq s qs dt) = iter_angle (length qs) (angle s) dt"
  by (induction qs arbitrary: s) (simp_all add: Update_result)

lemma iter_angle_range:
  assumes "0 \<le> a" "a \<le> below_2pi" "0 \<le> d" "d \<le> 6"
  shows "\<exists>a'. iter_angle n (Finite a) (Finite d) = Finite a' \<and> 0 \<le> a' \<and> a' \<le> below_2pi"
  using assms(1,2)
proof (induction n arbitrary: a)
  case 0
  then show ?case by simp
next
  case (Suc n)
  obtain a1 where a1: "advance_angle (Finite a) (Finite d) = Finite a1" "0 \<le> a1" "a1 \<le> below_2pi"
    using advance_angle_range[OF Suc.prems assms(3,4)] by blast
  show ?case using Suc.IH[OF a1(2,3)] by (simp add: a1(1))
qed

lemma below_2pi_less: "real_of_rat below_2pi < 2 * pi"
  using pi_bounds(1) by (simp add: below_2pi_def of_rat_divide of_rat_power)

lemma above_2pi_greater: "2 * pi < real_of_rat above_2pi"
  using pi_bounds(2) by (simp add: above_2pi_def of_rat_divide of_rat_power)

lemma two_pi_double_between: "below_2pi < two_pi_double" "two_pi_double < above_2pi"
  by (simp_all add: below_2pi_def two_pi_double_def above_2pi_def)

text \<open>
  Claim C3.  Start from \<open>angle = 0\<close> and call \<open>Update\<close> any number of times with one
  time step \<open>dt\<close>, a finite number with \<open>0 \<le> dt \<le> 6\<close> (so \<open>rate * dt\<close> is below \<open>2\<pi>\<close>, and
  far below it for the \<open>1/60\<close> of the loop), whatever events are pending at each call.
  After each call \<open>angle\<close> is a finite number in the half-open interval from \<open>0\<close> to
  \<open>2\<pi>\<close>.  The upper bound is strict because no \<open>float\<close> lies between the largest
  \<open>float\<close> below \<open>2\<pi>\<close> and the \<open>double\<close> \<open>2 * M_PI\<close>.
\<close>

theorem angle_stays_below_two_pi:
  assumes "angle s = Finite 0" "0 \<le> d" "d \<le> 6"
  shows "\<exists>a. angle (Update_seq s qs (Finite d)) = Finite a \<and> 0 \<le> a \<and> real_of_rat a < 2 * pi"
proof -
  obtain a where a: "iter_angle (length qs) (Finite 0) (Finite d) = Finite a" "0 \<le> a" "a \<le> below_2pi"
    using iter_angle_range[of 0 d "length qs"] assms(2,3) by (auto simp: below_2pi_def)
  have "real_of_rat a \<le> real_of_rat below_2pi" using a(3) by (simp add: of_rat_less_eq)
  then have "real_of_rat a < 2 * pi" using below_2pi_less by simp
  then show ?thesis using a by (simp add: Update_seq_angle assms(1))
qed

theorem angle_stays_below_two_pi_witness:
  "angle main_scene = Finite 0 \<and> (0 :: rat) \<le> 4803839602528529 / 2 ^ 58 \<and>
   (4803839602528529 / 2 ^ 58 :: rat) \<le> 6 \<and>
   (\<exists>a. angle (Update_seq main_scene [[], [key_a_event], [mouse_event]]
                (Finite (4803839602528529 / 2 ^ 58))) = Finite a \<and>
        0 \<le> a \<and> real_of_rat a < 2 * pi)"
  using angle_stays_below_two_pi[of main_scene "4803839602528529 / 2 ^ 58"
      "[[], [key_a_event], [mouse_event]]"]
  by (simp add: main_scene_def)

subsection \<open>One step\<close>

lemma advance_angle_wrap:
  "advance_angle a d = wrap_angle (float_add_assign a (fp_mul binary64 (Finite 1) d))"
  by (simp add: advance_angle_def wrap_angle_def Let_def)

lemma wrap_angle_Finite:
  "wrap_angle (Finite x) =
     (if fp_gt (fp_of_rat binary64 x) (Finite two_pi_double)
      then float_sub_assign (Finite x) (Finite two_pi_double) else Finite x)"
  by (simp add: wrap_angle_def TWO_M_PI_value)

lemma spu_mul:
  "fp_mul binary64 (Finite 1) secondsPerUpdate = Finite (4803839602528529 / 2 ^ 58)"
  by (simp add: fp_eval)

lemmas chain_eval = iter_angle_numeral advance_angle_wrap spu_mul wrap_angle_Finite fp_of_rat_0
  two_pi_double_def float_add_assign_def float_sub_assign_def fp_sub_def
  round32_eval round64_eval rne_eval floor_rat_numeral_divide

lemma binary32_gt_two_pi_aux:
  "fp_gt (fp_round binary32 v) TWO_M_PI \<longleftrightarrow> exceeds_two_pi (fp_round binary32 v)"
proof (cases v)
  case (Finite x)
  show ?thesis
  proof (cases "fp_of_rat binary32 x")
    case (Finite a)
    from binary32_near_2pi[OF this] show ?thesis
    proof
      assume le: "a \<le> below_2pi"
      then have "real_of_rat a \<le> real_of_rat below_2pi" by (simp add: of_rat_less_eq)
      then have "\<not> 2 * pi < real_of_rat a" using below_2pi_less by simp
      moreover have "\<not> two_pi_double < a" using le two_pi_double_between(1) by simp
      ultimately show ?thesis
        using \<open>v = Finite x\<close> Finite by (simp add: TWO_M_PI_value)
    next
      assume ge: "above_2pi \<le> a"
      then have "real_of_rat above_2pi \<le> real_of_rat a" by (simp add: of_rat_less_eq)
      then have "2 * pi < real_of_rat a" using above_2pi_greater by simp
      moreover have "two_pi_double < a" using ge two_pi_double_between(2) by simp
      ultimately show ?thesis
        using \<open>v = Finite x\<close> Finite by (simp add: TWO_M_PI_value)
    qed
  qed (use \<open>v = Finite x\<close> in \<open>simp_all add: TWO_M_PI_value\<close>)
qed (simp_all add: TWO_M_PI_value)

lemma binary32_gt_two_pi_iff:
  "fp_gt (fp_round binary64 (fp_round binary32 v)) TWO_M_PI \<longleftrightarrow>
     exceeds_two_pi (fp_round binary32 v)"
  by (simp only: float_to_double_exact binary32_gt_two_pi_aux)

lemma advance_angle_spec: "advance_angle a dt = spec_wrap_once a dt"
  by (simp add: advance_angle_def spec_wrap_once_def Let_def float_add_assign_def
      binary32_gt_two_pi_iff)

lemma advance_angle_20:
  "advance_angle (Finite 0) (Finite 20) = Finite (14383123 / 2 ^ 20)"
  by (simp add: fp_eval split del: if_split)

text \<open>
  Claim C4.  Every \<open>Update\<close> call sets the angle to the old angle plus \<open>1.0 * dt\<close>, and
  then subtracts \<open>2\<pi>\<close> once if and only if that sum exceeds \<open>2\<pi>\<close>: the new angle is
  \<open>spec_wrap_once\<close> of the old one, whatever events are pending.  The sum and the
  difference are the \<open>float\<close> results, and the code's test against the \<open>double\<close>
  \<open>2 * M_PI\<close> agrees with the test against the real number \<open>2\<pi>\<close> on every \<open>float\<close>.  The
  wrap is a single subtraction, not a reduction modulo \<open>2\<pi>\<close>: from \<open>angle = 0\<close> a step of
  \<open>20\<close> seconds leaves an angle that still exceeds \<open>2\<pi>\<close>.
\<close>

theorem Update_wraps_once:
  "angle (fst (Update s q dt)) = spec_wrap_once (angle s) dt \<and>
   exceeds_two_pi (angle (fst (Update main_scene [] (Finite 20))))"
proof -
  have "2 * pi < 14383123 / 2 ^ 20" using pi_bounds(2) by simp
  then have "exceeds_two_pi (Finite (14383123 / 2 ^ 20))"
    by (simp add: of_rat_divide of_rat_power)
  then show ?thesis
    by (simp add: Update_result advance_angle_spec[symmetric] main_scene_def advance_angle_20
        del: exceeds_two_pi.simps)
qed

theorem Update_wraps_once_witness:
  "angle (fst (Update main_scene [mouse_event] secondsPerUpdate)) =
     spec_wrap_once (Finite 0) secondsPerUpdate \<and>
   angle (fst (Update main_scene [mouse_event] secondsPerUpdate)) = Finite (8947849 / 2 ^ 29) \<and>
   angle (fst (Update (main_scene\<lparr>angle := Finite (13142209 / 2 ^ 21)\<rparr>) [] secondsPerUpdate)) =
     Finite (12037871 / 2 ^ 36)"
proof -
  have "advance_angle (Finite 0) secondsPerUpdate = Finite (8947849 / 2 ^ 29)"
    by (simp add: chain_eval split del: if_split)
  moreover have "advance_angle (Finite (13142209 / 2 ^ 21)) secondsPerUpdate =
      Finite (12037871 / 2 ^ 36)"
    by (simp add: chain_eval split del: if_split)
  ultimately show ?thesis
    using Update_wraps_once[of main_scene "[mouse_event]" secondsPerUpdate]
    by (simp add: Update_result main_scene_def)
qed

subsection \<open>377 steps of a sixtieth of a second\<close>

lemma angle_chunks:
  "iter_angle 47 (Finite 0) secondsPerUpdate = Finite (13142151 / 2 ^ 24)"
  "iter_angle 47 (Finite (13142151 / 2 ^ 24)) secondsPerUpdate = Finite (6571073 / 2 ^ 22)"
  "iter_angle 47 (Finite (6571073 / 2 ^ 22)) secondsPerUpdate = Finite (308019 / 2 ^ 17)"
  "iter_angle 47 (Finite (308019 / 2 ^ 17)) secondsPerUpdate = Finite (13142143 / 2 ^ 22)"
  "iter_angle 47 (Finite (13142143 / 2 ^ 22)) secondsPerUpdate = Finite (8213839 / 2 ^ 21)"
  "iter_angle 47 (Finite (8213839 / 2 ^ 21)) secondsPerUpdate = Finite (9856627 / 2 ^ 21)"
  "iter_angle 47 (Finite (9856627 / 2 ^ 21)) secondsPerUpdate = Finite (5749709 / 2 ^ 20)"
  "iter_angle 47 (Finite (5749709 / 2 ^ 20)) secondsPerUpdate = Finite (13142209 / 2 ^ 21)"
  by (simp_all add: chain_eval split del: if_split)

lemma iter_angle_add: "iter_angle (m + n) a d = iter_angle n (iter_angle m a d) d"
  by (induction m arbitrary: a) simp_all

lemma iter_angle_376:
  "iter_angle 376 (Finite 0) secondsPerUpdate = Finite (13142209 / 2 ^ 21)"
proof -
  have "iter_angle (47 + 47 + 47 + 47 + 47 + 47 + 47 + 47) (Finite 0) secondsPerUpdate =
      Finite (13142209 / 2 ^ 21)"
    by (simp only: iter_angle_add angle_chunks)
  then show ?thesis by simp
qed

lemma iter_angle_377:
  "iter_angle 377 (Finite 0) secondsPerUpdate = Finite (12037871 / 2 ^ 36)"
proof -
  have "iter_angle (376 + 1) (Finite 0) secondsPerUpdate =
      iter_angle 1 (Finite (13142209 / 2 ^ 21)) secondsPerUpdate"
    by (simp only: iter_angle_add iter_angle_376)
  also have "\<dots> = Finite (12037871 / 2 ^ 36)"
    by (simp add: chain_eval split del: if_split)
  finally show ?thesis by simp
qed

text \<open>
  Claim C7, as the code has it.  Start from \<open>angle = 0\<close> and call \<open>Update\<close> 377 times with
  \<open>dt = 1/60\<close>.  The 377th call wraps: its sum exceeds \<open>2 * M_PI\<close>, and \<open>2 * M_PI\<close> is
  subtracted.  After it the angle is \<open>12037871 / 2^36\<close>, about \<open>1.75e-4\<close>: within \<open>2e-4\<close>
  of \<open>0\<close>.
\<close>

theorem angle_after_377_Updates:
  "angle (Update_seq main_scene (replicate 377 []) secondsPerUpdate) = Finite (12037871 / 2 ^ 36) \<and>
   fp_gt (fp_round binary64
            (float_add_assign (angle (Update_seq main_scene (replicate 376 []) secondsPerUpdate))
               (fp_mul binary64 (Finite 1) secondsPerUpdate))) TWO_M_PI \<and>
   \<bar>(12037871 / 2 ^ 36 :: rat) - 0\<bar> \<le> 2 / 10 ^ 4"
proof -
  have "fp_gt (fp_round binary64 (float_add_assign (Finite (13142209 / 2 ^ 21))
            (fp_mul binary64 (Finite 1) secondsPerUpdate))) TWO_M_PI"
    by (simp add: chain_eval TWO_M_PI_value split del: if_split)
  then show ?thesis
    by (simp add: Update_seq_angle iter_angle_376 iter_angle_377 main_scene_def)
qed

text \<open>
  Claim C7 as stated gives the tolerance \<open>1e-4\<close>.  The angle after 377 calls is more
  than \<open>1e-4\<close> away from \<open>0\<close>; so is the real number \<open>377/60 - 2\<pi>\<close>, the angle that
  arithmetic without rounding would give.
\<close>

theorem angle_after_377_Updates_exceeds_tolerance:
  "angle (Update_seq main_scene (replicate 377 []) secondsPerUpdate) = Finite (12037871 / 2 ^ 36) \<and>
   \<not> \<bar>(12037871 / 2 ^ 36 :: rat) - 0\<bar> \<le> 1 / 10 ^ 4 \<and>
   \<not> \<bar>377 / 60 - 2 * pi - 0\<bar> \<le> 1 / 10 ^ 4"
proof -
  have "1 / 10 ^ 4 < 377 / 60 - 2 * pi" using pi_bounds(2) by simp
  then show ?thesis
    by (simp add: Update_seq_angle iter_angle_377 main_scene_def)
qed

end
